theory Spec2Isabelle
  imports Complex_Main "HOL-Library.Multiset"
begin

text \<open>
  Dependency Sorter v0.1.0 (\<^verbatim>\<open>dependency-sorter.js\<close>): a weighted dependency sorter, based on a
  depth-first topological sort. This theory embeds its functions \<^verbatim>\<open>Serializer\<close>,
  \<^verbatim>\<open>sortByDepends\<close>, \<^verbatim>\<open>sortByWeight\<close>, \<^verbatim>\<open>runInRange\<close>, \<^verbatim>\<open>swapInRange\<close> and \<^verbatim>\<open>sort\<close>, and
  proves what they do. A thrown exception is the left summand of a result; arrays are
  lists, and a function that writes an array or an object returns its new contents.
\<close>

section \<open>JavaScript values\<close>

text \<open>
  The sorter reads three properties of each input record and compares identifiers with
  \<^verbatim>\<open>Array.prototype.indexOf\<close>, that is with strict equality. Numbers are IEEE doubles; the
  code only compares them, so a finite double is represented by the rational it denotes
  (\<open>+0\<close> and \<open>-0\<close> coincide, as they do under \<^verbatim>\<open><\<close> and \<^verbatim>\<open>===\<close>), next to the two
  infinities and \<open>NaN\<close>.
\<close>

datatype jsnum = NaN | NegInf | Fin rat | PosInf

text \<open>The relational operator \<^verbatim>\<open>a < b\<close> on numbers; \<^verbatim>\<open>a > b\<close> is \<open>num_lt b a\<close>.\<close>

fun num_lt :: "jsnum \<Rightarrow> jsnum \<Rightarrow> bool" where
  "num_lt NaN _ = False"
| "num_lt _ NaN = False"
| "num_lt NegInf NegInf = False"
| "num_lt NegInf _ = True"
| "num_lt (Fin a) (Fin b) = (a < b)"
| "num_lt (Fin a) PosInf = True"
| "num_lt (Fin a) NegInf = False"
| "num_lt PosInf _ = False"

text \<open>
  Values. Arrays and objects carry the address that is their identity; an array also
  carries its elements. Functions and symbols behave like objects here (truthy, equal
  only to themselves).
\<close>

datatype jsval =
    VUndefined
  | VNull
  | VBool bool
  | VNum jsnum
  | VStr string
  | VArr nat "jsval list"
  | VObj nat

text \<open>Strict equality \<^verbatim>\<open>===\<close>: \<open>NaN\<close> differs from itself, objects are equal by identity.\<close>

fun strict_eq :: "jsval \<Rightarrow> jsval \<Rightarrow> bool" where
  "strict_eq (VNum a) (VNum b) = (a \<noteq> NaN \<and> a = b)"
| "strict_eq (VArr r xs) (VArr r' ys) = (r = r')"
| "strict_eq (VObj r) (VObj r') = (r = r')"
| "strict_eq VUndefined VUndefined = True"
| "strict_eq VNull VNull = True"
| "strict_eq (VBool a) (VBool b) = (a = b)"
| "strict_eq (VStr a) (VStr b) = (a = b)"
| "strict_eq _ _ = False"

text \<open>Conversion to boolean, as in \<^verbatim>\<open>depends ? ... : []\<close>.\<close>

fun truthy :: "jsval \<Rightarrow> bool" where
  "truthy VUndefined = False"
| "truthy VNull = False"
| "truthy (VBool b) = b"
| "truthy (VNum n) = (n \<noteq> NaN \<and> n \<noteq> Fin 0)"
| "truthy (VStr s) = (s \<noteq> [])"
| "truthy (VArr r xs) = True"
| "truthy (VObj r) = True"

text \<open>\<^verbatim>\<open>xs.indexOf(v)\<close>: the first index whose element is strictly equal to \<open>v\<close>, or \<open>-1\<close>.\<close>

fun indexOf :: "jsval list \<Rightarrow> jsval \<Rightarrow> int" where
  "indexOf [] v = -1"
| "indexOf (x # xs) v =
     (if strict_eq x v then 0
      else (let k = indexOf xs v in if k = -1 then -1 else k + 1))"

text \<open>An input record: an object with its identity and the properties that can be read from it.\<close>

record jsrecord =
  ref :: nat
  props :: "(string \<times> jsval) list"

text \<open>\<^verbatim>\<open>node[key]\<close>: a property that is absent reads as \<^verbatim>\<open>undefined\<close>.\<close>

definition getprop :: "jsrecord \<Rightarrow> string \<Rightarrow> jsval" where
  "getprop r k = (case map_of (props r) k of None \<Rightarrow> VUndefined | Some v \<Rightarrow> v)"

section \<open>Serialized nodes\<close>

text \<open>
  The \<^verbatim>\<open>mark\<close> property of a serialized node: \<^verbatim>\<open>undefined\<close> after \<^verbatim>\<open>serialize\<close>,
  then \<^verbatim>\<open>TEMPORARY_MARK = 1\<close> and \<^verbatim>\<open>PERMANENT_MARK = 2\<close> in \<^verbatim>\<open>sortByDepends\<close>.
\<close>

datatype mark = Unmarked | TEMPORARY_MARK | PERMANENT_MARK

text \<open>
  The object \<^verbatim>\<open>serialize\<close> returns: \<^verbatim>\<open>{ id, weight, depends, mark, node }\<close>
  (the field \<^verbatim>\<open>id\<close> is \<open>id'\<close> here).
\<close>

record snode =
  id' :: jsval
  weight :: jsnum
  depends :: "jsval list"
  mark :: mark
  node :: jsrecord

text \<open>
  The errors a call can end in: the \<^verbatim>\<open>Error('Circular dependency encountered: ' + node.id)\<close>
  thrown by \<^verbatim>\<open>visit\<close>, carrying the identifier, and the \<^verbatim>\<open>TypeError\<close> of the runtime when a
  property of \<^verbatim>\<open>undefined\<close> is read.
\<close>

datatype error = CycleError jsval | TypeError

text \<open>The options object of \<^verbatim>\<open>Serializer(options)\<close>; the property names are strings.\<close>

record options =
  opt_defaultWeight :: jsval
  opt_idProperty :: "string option"
  opt_weightProperty :: "string option"
  opt_dependsProperty :: "string option"

text \<open>The variables the closure of \<^verbatim>\<open>Serializer\<close> captures.\<close>

record serializer =
  defaultWeight :: jsnum
  idProperty :: string
  weightProperty :: string
  dependsProperty :: string

text \<open>\<^verbatim>\<open>options.p || d\<close> for a property name: absent or the empty string gives \<open>d\<close>.\<close>

definition or_default :: "string option \<Rightarrow> string \<Rightarrow> string" where
  "or_default p d = (case p of None \<Rightarrow> d | Some s \<Rightarrow> if s = [] then d else s)"

text \<open>
  \<^verbatim>\<open>Serializer(options)\<close> with the defaults of its options; \<open>None\<close> is a call without options.
  \<^verbatim>\<open>defaultWeight\<close> is taken only when it is a number.
\<close>

definition Serializer :: "options option \<Rightarrow> serializer" where
  "Serializer opts =
     (case opts of
        None \<Rightarrow> \<lparr>defaultWeight = Fin 0, idProperty = ''id'', weightProperty = ''weight'',
                 dependsProperty = ''depends''\<rparr>
      | Some options \<Rightarrow>
          \<lparr>defaultWeight = (case opt_defaultWeight options of VNum w \<Rightarrow> w | _ \<Rightarrow> Fin 0),
           idProperty = or_default (opt_idProperty options) ''id'',
           weightProperty = or_default (opt_weightProperty options) ''weight'',
           dependsProperty = or_default (opt_dependsProperty options) ''depends''\<rparr>)"

text \<open>
  \<^verbatim>\<open>serialize(node)\<close>. The record \<open>r\<close> is an object, so reading its properties cannot fail;
  \<^verbatim>\<open>typeof id !== 'undefined' && id != null\<close> excludes exactly \<^verbatim>\<open>undefined\<close> and \<^verbatim>\<open>null\<close>.
\<close>

definition serialize :: "serializer \<Rightarrow> jsrecord \<Rightarrow> snode" where
  "serialize s r =
     (let i = getprop r (idProperty s);
          w = getprop r (weightProperty s);
          d = getprop r (dependsProperty s)
      in \<lparr>id' = (if i \<noteq> VUndefined \<and> i \<noteq> VNull then i else VObj (ref r)),
          weight = (case w of VNum x \<Rightarrow> x | _ \<Rightarrow> defaultWeight s),
          depends = (if truthy d then (case d of VArr a xs \<Rightarrow> xs | _ \<Rightarrow> [d]) else []),
          mark = Unmarked,
          node = r\<rparr>)"

text \<open>\<^verbatim>\<open>deserialize(node)\<close> returns \<^verbatim>\<open>node.node\<close>.\<close>

definition deserialize :: "snode \<Rightarrow> jsrecord" where
  "deserialize n = node n"

section \<open>Depth-first topological sort\<close>

text \<open>
  The state of one call of \<^verbatim>\<open>sortByDepends(nodes)\<close>: the node objects of the array
  \<^verbatim>\<open>nodes\<close>, whose marks the call writes, and the array \<^verbatim>\<open>result\<close>. A node object is
  referred to by its index in \<^verbatim>\<open>nodes\<close>; \<open>result\<close> holds such references.
\<close>

record dstate =
  objs :: "snode list"
  result :: "nat list"

text \<open>\<^verbatim>\<open>node.mark = m\<close> and \<^verbatim>\<open>result.unshift(node)\<close>.\<close>

definition set_mark :: "nat \<Rightarrow> mark \<Rightarrow> dstate \<Rightarrow> dstate" where
  "set_mark i m st = st\<lparr>objs := (objs st)[i := (objs st ! i)\<lparr>mark := m\<rparr>]\<rparr>"

definition unshift :: "nat \<Rightarrow> dstate \<Rightarrow> dstate" where
  "unshift i st = st\<lparr>result := i # result st\<rparr>"

text \<open>\<^verbatim>\<open>~m.depends.indexOf(n.id)\<close> is truthy: node \<open>m\<close> depends on node \<open>n\<close>.\<close>

definition depends_on :: "snode \<Rightarrow> snode \<Rightarrow> bool" where
  "depends_on m n = (indexOf (depends m) (id' n) \<noteq> -1)"

text \<open>The number of nodes without a mark: what every nested \<^verbatim>\<open>visit\<close> decreases.\<close>

definition unmarked :: "dstate \<Rightarrow> nat" where
  "unmarked st = length (filter (\<lambda>x. mark x = Unmarked) (objs st))"

text \<open>
  \<^verbatim>\<open>visit(node)\<close> and the loop \<^verbatim>\<open>nodes.forEach(function(_) { ... visit(_) })\<close> inside it;
  \<open>visit_forEach i js\<close> runs the loop of \<open>visit i\<close> over the remaining indices \<open>js\<close>.
  An index outside the array stands for \<^verbatim>\<open>undefined\<close>, whose \<^verbatim>\<open>mark\<close> cannot be read
  (no caller passes one).
\<close>

function visit :: "nat \<Rightarrow> dstate \<Rightarrow> error + dstate"
  and visit_forEach :: "nat \<Rightarrow> nat list \<Rightarrow> dstate \<Rightarrow> error + dstate" where
  "visit i st =
     (if length (objs st) \<le> i then Inl TypeError
      else (case mark (objs st ! i) of
          TEMPORARY_MARK \<Rightarrow> Inl (CycleError (id' (objs st ! i)))
        | PERMANENT_MARK \<Rightarrow> Inr st
        | Unmarked \<Rightarrow>
            (case visit_forEach i [0..<length (objs st)] (set_mark i TEMPORARY_MARK st) of
               Inl e \<Rightarrow> Inl e
             | Inr st' \<Rightarrow> Inr (unshift i (set_mark i PERMANENT_MARK st')))))"
| "visit_forEach i [] st = Inr st"
| "visit_forEach i (j # js) st =
     (if depends_on (objs st ! j) (objs st ! i)
      then (case visit j st of Inl e \<Rightarrow> Inl e | Inr st' \<Rightarrow> visit_forEach i js st')
      else visit_forEach i js st)"
  by pat_completeness auto

lemma filter_update_le:
  "\<not> P y \<Longrightarrow> length (filter P (xs[i := y])) \<le> length (filter P xs)"
proof (induction xs arbitrary: i)
  case Nil
  then show ?case by simp
next
  case (Cons a as)
  then show ?case by (cases i) (auto simp: le_SucI)
qed

lemma filter_update_less:
  "i < length xs \<Longrightarrow> P (xs ! i) \<Longrightarrow> \<not> P y \<Longrightarrow>
   length (filter P (xs[i := y])) < length (filter P xs)"
proof (induction xs arbitrary: i)
  case Nil
  then show ?case by simp
next
  case (Cons a as)
  then show ?case by (cases i) (auto simp: less_SucI)
qed

lemma unmarked_set_mark_le:
  "m \<noteq> Unmarked \<Longrightarrow> unmarked (set_mark i m st) \<le> unmarked st"
  by (simp add: unmarked_def set_mark_def filter_update_le)

lemma unmarked_set_mark_less:
  "i < length (objs st) \<Longrightarrow> mark (objs st ! i) = Unmarked \<Longrightarrow> m \<noteq> Unmarked \<Longrightarrow>
   unmarked (set_mark i m st) < unmarked st"
  by (simp add: unmarked_def set_mark_def filter_update_less)

lemma unmarked_unshift [simp]: "unmarked (unshift i st) = unmarked st"
  by (simp add: unmarked_def unshift_def)

lemma visit_unmarked_le:
  "visit_visit_forEach_dom (Inl (i, st)) \<Longrightarrow> visit i st = Inr st' \<Longrightarrow> unmarked st' \<le> unmarked st"
  "visit_visit_forEach_dom (Inr (i, js, st)) \<Longrightarrow> visit_forEach i js st = Inr st'' \<Longrightarrow> unmarked st'' \<le> unmarked st"
proof (induction i st and i js st arbitrary: st' and st'' rule: visit_visit_forEach.pinduct)
  case (1 i st)
  show ?case
  proof (cases "mark (objs st ! i)")
    case Unmarked
    from 1(1,3) Unmarked obtain st2 where
      r: "visit_forEach i [0..<length (objs st)] (set_mark i TEMPORARY_MARK st) = Inr st2"
      and e: "st' = unshift i (set_mark i PERMANENT_MARK st2)" and lt: "\<not> length (objs st) \<le> i"
      by (auto simp: visit.psimps split: if_splits sum.splits)
    have "unmarked st2 \<le> unmarked (set_mark i TEMPORARY_MARK st)"
      using 1(2)[OF lt Unmarked r] .
    also have "\<dots> \<le> unmarked st" by (simp add: unmarked_set_mark_le)
    finally have "unmarked st2 \<le> unmarked st" .
    moreover have "unmarked st' \<le> unmarked st2"
      by (simp add: e unmarked_set_mark_le)
    ultimately show ?thesis by simp
  next
    case TEMPORARY_MARK
    with 1 show ?thesis by (simp add: visit.psimps split: if_splits)
  next
    case PERMANENT_MARK
    with 1 show ?thesis by (simp add: visit.psimps split: if_splits)
  qed
next
  case (2 i st)
  then show ?case by (simp add: visit_forEach.psimps)
next
  case (3 i j js st)
  show ?case
  proof (cases "depends_on (objs st ! j) (objs st ! i)")
    case True
    from 3(1,5) True obtain st2 where
      v: "visit j st = Inr st2" and r: "visit_forEach i js st2 = Inr st''"
      by (auto simp: visit_forEach.psimps split: sum.splits)
    have "unmarked st'' \<le> unmarked st2" using 3(3)[OF True v r] .
    also have "unmarked st2 \<le> unmarked st" using 3(2)[OF True v] .
    finally show ?thesis .
  next
    case False
    with 3(1,5) have "visit_forEach i js st = Inr st''"
      by (simp add: visit_forEach.psimps)
    then show ?thesis using 3(4)[OF False] by simp
  qed
qed

termination visit
  apply (relation "inv_image (less_than <*lex*> less_than)
    (\<lambda>x. case x of Inl (i, st) \<Rightarrow> (unmarked st, 0)
                  | Inr (i, js, st) \<Rightarrow> (unmarked st, Suc (length js)))")
  subgoal by (intro wf_inv_image wf_lex_prod wf_less_than)
  subgoal by (simp add: unmarked_set_mark_less)
  subgoal by simp
  subgoal for i j js st st' using visit_unmarked_le(1)[of j st st'] by auto
  subgoal by simp
  done

declare visit.simps [simp del]

text \<open>The loop of \<^verbatim>\<open>sortByDepends\<close>: \<^verbatim>\<open>nodes.forEach(function(node) { if (!node.mark) visit(node) })\<close>.\<close>

fun forEach_unmarked :: "nat list \<Rightarrow> dstate \<Rightarrow> error + dstate" where
  "forEach_unmarked [] st = Inr st"
| "forEach_unmarked (i # is) st =
     (if mark (objs st ! i) = Unmarked
      then (case visit i st of Inl e \<Rightarrow> Inl e | Inr st' \<Rightarrow> forEach_unmarked is st')
      else forEach_unmarked is st)"

text \<open>
  \<^verbatim>\<open>sortByDepends(nodes)\<close>, for an array of distinct node objects (as \<^verbatim>\<open>nodes.map(serialize)\<close>
  makes them). It returns the node objects as the call leaves them, and the new array
  \<^verbatim>\<open>result\<close> with each reference resolved.
\<close>

definition sortByDepends :: "snode list \<Rightarrow> error + (snode list \<times> snode list)" where
  "sortByDepends nodes =
     (case forEach_unmarked [0..<length nodes] \<lparr>objs = nodes, result = []\<rparr> of
        Inl e \<Rightarrow> Inl e
      | Inr st \<Rightarrow> Inr (objs st, map (\<lambda>i. objs st ! i) (result st)))"

section \<open>Range utilities\<close>

text \<open>\<^verbatim>\<open>arr[i]\<close>: an index outside the array reads \<^verbatim>\<open>undefined\<close> (\<open>None\<close>).\<close>

definition nth_opt :: "'a list \<Rightarrow> int \<Rightarrow> 'a option" where
  "nth_opt arr i = (if 0 \<le> i \<and> i < int (length arr) then Some (arr ! nat i) else None)"

text \<open>
  The values \<^verbatim>\<open>i\<close> takes in \<^verbatim>\<open>for (var i = from; i !== to; i += step)\<close> with
  \<^verbatim>\<open>step = from < to ? 1 : -1\<close> when the body does not leave the loop: \<open>from\<close> inclusive,
  \<open>to\<close> exclusive, upward or downward.
\<close>

definition range_indices :: "int \<Rightarrow> int \<Rightarrow> int list" where
  "range_indices from to = (if from < to then [from..to - 1] else rev [to + 1..from])"

text \<open>
  The function passed to \<^verbatim>\<open>runInRange\<close> gets \<^verbatim>\<open>arr[i]\<close>, \<^verbatim>\<open>i\<close> and \<^verbatim>\<open>arr\<close> (the callers
  here read no other argument); it may write to the array and returns a value or
  \<^verbatim>\<open>undefined\<close>, or throws.
\<close>

type_synonym ('a, 'r) callback =
  "'a option \<Rightarrow> int \<Rightarrow> 'a list \<Rightarrow> error + ('r option \<times> 'a list)"

text \<open>The loop of \<^verbatim>\<open>runInRange\<close> over the remaining indices: a defined result leaves it.\<close>

fun for_loop ::
  "('a, 'r) callback \<Rightarrow> int list \<Rightarrow> 'a list \<Rightarrow> 'r option \<Rightarrow> error + ('r option \<times> 'a list)" where
  "for_loop fn [] arr defaultResult = Inr (defaultResult, arr)"
| "for_loop fn (i # is) arr defaultResult =
     (case fn (nth_opt arr i) i arr of
        Inl e \<Rightarrow> Inl e
      | Inr (Some r, arr') \<Rightarrow> Inr (Some r, arr')
      | Inr (None, arr') \<Rightarrow> for_loop fn is arr' defaultResult)"

text \<open>\<^verbatim>\<open>runInRange(arr, from, to, fn, defaultResult)\<close>, returning its value and the array.\<close>

definition runInRange ::
  "'a list \<Rightarrow> int \<Rightarrow> int \<Rightarrow> ('a, 'r) callback \<Rightarrow> 'r option \<Rightarrow> error + ('r option \<times> 'a list)" where
  "runInRange arr from to fn defaultResult =
     (if from = to then Inr (None, arr)
      else for_loop fn (range_indices from to) arr defaultResult)"

text \<open>
  The function \<^verbatim>\<open>swapInRange\<close> passes to \<^verbatim>\<open>runInRange\<close>. Each \<^verbatim>\<open>compare\<close> of
  \<^verbatim>\<open>sortByWeight\<close> reads a property of both its arguments, so it throws a \<^verbatim>\<open>TypeError\<close>
  when \<^verbatim>\<open>a\<close> or \<^verbatim>\<open>b\<close> is \<^verbatim>\<open>undefined\<close>; otherwise both indices are inside the array.
\<close>

definition swap_step :: "int \<Rightarrow> int \<Rightarrow> ('a \<Rightarrow> 'a \<Rightarrow> bool) \<Rightarrow> ('a, int) callback" where
  "swap_step step to compare a i arr =
     (let n = i + step; b = nth_opt arr n in
      case (a, b) of
        (Some a', Some b') \<Rightarrow>
          if \<not> compare a' b' then Inr (Some i, arr)
          else (let arr' = (arr[nat n := a'])[nat i := b'] in
                if n = to then Inr (Some n, arr') else Inr (None, arr'))
      | _ \<Rightarrow> Inl TypeError)"

text \<open>\<^verbatim>\<open>swapInRange(arr, from, to, compare)\<close>.\<close>

definition swapInRange ::
  "'a list \<Rightarrow> int \<Rightarrow> int \<Rightarrow> ('a \<Rightarrow> 'a \<Rightarrow> bool) \<Rightarrow> error + (int option \<times> 'a list)" where
  "swapInRange arr from to compare =
     (if from = to then Inr (None, arr)
      else (let step = (if from < to then 1 else -1) in
            runInRange arr from to (swap_step step to compare) (Some from)))"

section \<open>Sort by weight\<close>

text \<open>
  The function of the negative pass. \<^verbatim>\<open>node.weight\<close> of \<^verbatim>\<open>undefined\<close> throws. A first
  \<^verbatim>\<open>swapInRange\<close> that returned \<^verbatim>\<open>undefined\<close> would make the second one read
  \<^verbatim>\<open>arr[undefined]\<close> and throw in its \<^verbatim>\<open>compare\<close>.
\<close>

definition apply_negative :: "(snode, unit) callback" where
  "apply_negative nd i arr =
     (case nd of
        None \<Rightarrow> Inl TypeError
      | Some x \<Rightarrow>
          if num_lt (weight x) (Fin 0) then
            (case swapInRange arr i 0 (\<lambda>a b. indexOf (depends a) (id' b) = -1) of
               Inl e \<Rightarrow> Inl e
             | Inr (None, arr1) \<Rightarrow> Inl TypeError
             | Inr (Some nodePos, arr1) \<Rightarrow>
                 (case swapInRange arr1 nodePos i (\<lambda>a b. num_lt (weight b) (weight a)) of
                    Inl e \<Rightarrow> Inl e
                  | Inr (_, arr2) \<Rightarrow> Inr (None, arr2)))
          else Inr (None, arr))"

text \<open>The function of the positive pass.\<close>

definition apply_positive :: "(snode, unit) callback" where
  "apply_positive nd i arr =
     (case nd of
        None \<Rightarrow> Inl TypeError
      | Some x \<Rightarrow>
          if num_lt (Fin 0) (weight x) then
            (case swapInRange arr i (int (length arr) - 1)
                    (\<lambda>a b. indexOf (depends b) (id' a) = -1) of
               Inl e \<Rightarrow> Inl e
             | Inr (None, arr1) \<Rightarrow> Inl TypeError
             | Inr (Some nodePos, arr1) \<Rightarrow>
                 (case swapInRange arr1 nodePos i (\<lambda>a b. num_lt (weight a) (weight b)) of
                    Inl e \<Rightarrow> Inl e
                  | Inr (_, arr2) \<Rightarrow> Inr (None, arr2)))
          else Inr (None, arr))"

text \<open>\<^verbatim>\<open>sortByWeight(tsortedNodes)\<close>: the array is sorted in place and returned.\<close>

definition sortByWeight :: "snode list \<Rightarrow> error + snode list" where
  "sortByWeight tsortedNodes =
     (case runInRange tsortedNodes 1 (int (length tsortedNodes)) apply_negative None of
        Inl e \<Rightarrow> Inl e
      | Inr (_, result1) \<Rightarrow>
          (case runInRange result1 (int (length result1) - 2) 0 apply_positive None of
             Inl e \<Rightarrow> Inl e
           | Inr (_, result2) \<Rightarrow> Inr result2))"

section \<open>Topological and weight sort\<close>

text \<open>
  \<^verbatim>\<open>sort(nodes)\<close> of a sorter made with the serializer \<open>s\<close>: serialize, sort by
  dependency, sort by weight, deserialize.
\<close>

definition sort_js :: "serializer \<Rightarrow> jsrecord list \<Rightarrow> error + jsrecord list" where
  "sort_js s nodes =
     (case sortByDepends (map (serialize s) nodes) of
        Inl e \<Rightarrow> Inl e
      | Inr (_, nodes1) \<Rightarrow>
          (case sortByWeight nodes1 of
             Inl e \<Rightarrow> Inl e
           | Inr nodes2 \<Rightarrow> Inr (map deserialize nodes2)))"

section \<open>Sort on a heap\<close>

text \<open>
  The functions above compute with the contents of the objects a call can write: the node
  objects and the array \<^verbatim>\<open>result\<close> for \<^verbatim>\<open>sortByDepends\<close>, the one array it is given for
  \<^verbatim>\<open>sortByWeight\<close>. To say what a call of \<^verbatim>\<open>sort\<close> leaves untouched, the same code is
  placed in a heap of objects with identity: arrays hold references, \<^verbatim>\<open>map\<close> and an array
  or object literal allocate, and \<^verbatim>\<open>sortByWeight\<close> writes the array it is given.
\<close>

text \<open>References are addresses.\<close>

type_synonym addr = nat

text \<open>
  The heap: arrays of references, the objects made by \<^verbatim>\<open>serialize\<close>, the caller's records with
  their properties, and the next free address.
\<close>

record heap =
  arrays :: "addr \<rightharpoonup> addr list"
  wrappers :: "addr \<rightharpoonup> snode"
  records :: "addr \<rightharpoonup> (string \<times> jsval) list"
  next_addr :: addr

text \<open>The record object at an address.\<close>

definition record_at :: "heap \<Rightarrow> addr \<Rightarrow> jsrecord" where
  "record_at h r = \<lparr>ref = r, props = (case records h r of None \<Rightarrow> [] | Some ps \<Rightarrow> ps)\<rparr>"

text \<open>
  The node object at an address; every reference read this way was stored by
  \<^verbatim>\<open>serialize\<close> in the same call.
\<close>

definition wrapper_at :: "heap \<Rightarrow> addr \<Rightarrow> snode" where
  "wrapper_at h w = the (wrappers h w)"

text \<open>An array literal, or the array a \<^verbatim>\<open>map\<close> returns: a new object.\<close>

definition new_array :: "addr list \<Rightarrow> heap \<Rightarrow> addr \<times> heap" where
  "new_array xs h =
     (next_addr h, h\<lparr>arrays := (arrays h)(next_addr h \<mapsto> xs), next_addr := Suc (next_addr h)\<rparr>)"

text \<open>\<^verbatim>\<open>serialize(node)\<close> returns a new object; it reads the record and writes nothing else.\<close>

definition serialize_h :: "serializer \<Rightarrow> addr \<Rightarrow> heap \<Rightarrow> addr \<times> heap" where
  "serialize_h s r h =
     (next_addr h,
      h\<lparr>wrappers := (wrappers h)(next_addr h \<mapsto> serialize s (record_at h r)),
        next_addr := Suc (next_addr h)\<rparr>)"

text \<open>The elements of \<^verbatim>\<open>nodes.map(serializer.serialize)\<close>, in order.\<close>

fun map_serialize :: "serializer \<Rightarrow> addr list \<Rightarrow> heap \<Rightarrow> addr list \<times> heap" where
  "map_serialize s [] h = ([], h)"
| "map_serialize s (r # rs) h =
     (case serialize_h s r h of (w, h1) \<Rightarrow>
        (case map_serialize s rs h1 of (ws, h2) \<Rightarrow> (w # ws, h2)))"

text \<open>
  \<^verbatim>\<open>sortByDepends(nodes)\<close>: a new array \<^verbatim>\<open>result\<close>; the traversal runs on the node objects of
  \<^verbatim>\<open>nodes\<close> (distinct objects here), whose marks it writes back, and \<^verbatim>\<open>result\<close> receives the
  references. After a throw the objects of the aborted call are not tracked: no reference
  to them is left.
\<close>

definition sortByDepends_h :: "addr \<Rightarrow> heap \<Rightarrow> (error + addr) \<times> heap" where
  "sortByDepends_h nodes h =
     (case arrays h nodes of
        None \<Rightarrow> (Inl TypeError, h)
      | Some ws \<Rightarrow>
          (case new_array [] h of (res, h1) \<Rightarrow>
             (case forEach_unmarked [0..<length ws] \<lparr>objs = map (wrapper_at h1) ws, result = []\<rparr> of
                Inl e \<Rightarrow> (Inl e, h1)
              | Inr st \<Rightarrow>
                  (Inr res,
                   h1\<lparr>wrappers := (wrappers h1)(ws [\<mapsto>] objs st),
                      arrays := (arrays h1)(res \<mapsto> map (\<lambda>i. ws ! i) (result st))\<rparr>))))"

text \<open>The function of the negative pass on an array of references; \<open>W\<close> reads a node object.\<close>

definition apply_negative_h :: "(addr \<Rightarrow> snode) \<Rightarrow> (addr, unit) callback" where
  "apply_negative_h W nd i arr =
     (case nd of
        None \<Rightarrow> Inl TypeError
      | Some x \<Rightarrow>
          if num_lt (weight (W x)) (Fin 0) then
            (case swapInRange arr i 0 (\<lambda>a b. indexOf (depends (W a)) (id' (W b)) = -1) of
               Inl e \<Rightarrow> Inl e
             | Inr (None, arr1) \<Rightarrow> Inl TypeError
             | Inr (Some nodePos, arr1) \<Rightarrow>
                 (case swapInRange arr1 nodePos i (\<lambda>a b. num_lt (weight (W b)) (weight (W a))) of
                    Inl e \<Rightarrow> Inl e
                  | Inr (_, arr2) \<Rightarrow> Inr (None, arr2)))
          else Inr (None, arr))"

text \<open>The function of the positive pass on an array of references.\<close>

definition apply_positive_h :: "(addr \<Rightarrow> snode) \<Rightarrow> (addr, unit) callback" where
  "apply_positive_h W nd i arr =
     (case nd of
        None \<Rightarrow> Inl TypeError
      | Some x \<Rightarrow>
          if num_lt (Fin 0) (weight (W x)) then
            (case swapInRange arr i (int (length arr) - 1)
                    (\<lambda>a b. indexOf (depends (W b)) (id' (W a)) = -1) of
               Inl e \<Rightarrow> Inl e
             | Inr (None, arr1) \<Rightarrow> Inl TypeError
             | Inr (Some nodePos, arr1) \<Rightarrow>
                 (case swapInRange arr1 nodePos i (\<lambda>a b. num_lt (weight (W a)) (weight (W b))) of
                    Inl e \<Rightarrow> Inl e
                  | Inr (_, arr2) \<Rightarrow> Inr (None, arr2)))
          else Inr (None, arr))"

text \<open>\<^verbatim>\<open>sortByWeight(tsortedNodes)\<close>: sorted in place, the same array is returned.\<close>

definition sortByWeight_h :: "addr \<Rightarrow> heap \<Rightarrow> (error + addr) \<times> heap" where
  "sortByWeight_h tsortedNodes h =
     (case arrays h tsortedNodes of
        None \<Rightarrow> (Inl TypeError, h)
      | Some arr \<Rightarrow>
          (case runInRange arr 1 (int (length arr)) (apply_negative_h (wrapper_at h)) None of
             Inl e \<Rightarrow> (Inl e, h)
           | Inr (_, result1) \<Rightarrow>
               (case runInRange result1 (int (length result1) - 2) 0
                       (apply_positive_h (wrapper_at h)) None of
                  Inl e \<Rightarrow> (Inl e, h)
                | Inr (_, result2) \<Rightarrow>
                    (Inr tsortedNodes, h\<lparr>arrays := (arrays h)(tsortedNodes \<mapsto> result2)\<rparr>))))"

text \<open>\<^verbatim>\<open>nodes.map(serializer.deserialize)\<close>: a new array of the records' references.\<close>

definition map_deserialize :: "addr \<Rightarrow> heap \<Rightarrow> (error + addr) \<times> heap" where
  "map_deserialize nodes h =
     (case arrays h nodes of
        None \<Rightarrow> (Inl TypeError, h)
      | Some ws \<Rightarrow>
          (case new_array (map (\<lambda>w. ref (deserialize (wrapper_at h w))) ws) h of
             (a, h1) \<Rightarrow> (Inr a, h1)))"

text \<open>\<^verbatim>\<open>sort(nodes)\<close>: each step rebinds the local variable \<^verbatim>\<open>nodes\<close>.\<close>

definition sort_h :: "serializer \<Rightarrow> addr \<Rightarrow> heap \<Rightarrow> (error + addr) \<times> heap" where
  "sort_h s nodes h =
     (case arrays h nodes of
        None \<Rightarrow> (Inl TypeError, h)
      | Some rs \<Rightarrow>
          (case map_serialize s rs h of (ws, h1) \<Rightarrow>
          (case new_array ws h1 of (nodes1, h2) \<Rightarrow>
          (case sortByDepends_h nodes1 h2 of
             (Inl e, h3) \<Rightarrow> (Inl e, h3)
           | (Inr nodes2, h3) \<Rightarrow>
               (case sortByWeight_h nodes2 h3 of
                  (Inl e, h4) \<Rightarrow> (Inl e, h4)
                | (Inr nodes3, h4) \<Rightarrow> map_deserialize nodes3 h4)))))"

section \<open>Vocabulary of the statements\<close>

text \<open>A node with its mark erased: what \<^verbatim>\<open>sortByDepends\<close> never changes of a node object.\<close>

definition unmark :: "snode \<Rightarrow> snode" where
  "unmark x = x\<lparr>mark := Unmarked\<rparr>"

text \<open>The node objects of a state without their marks.\<close>

definition graph_of :: "dstate \<Rightarrow> snode list" where
  "graph_of st = map unmark (objs st)"

text \<open>The indices of the node objects that carry the mark \<open>m\<close>.\<close>

definition marked :: "mark \<Rightarrow> dstate \<Rightarrow> nat set" where
  "marked m st = {i. i < length (objs st) \<and> mark (objs st ! i) = m}"

text \<open>
What a \<^verbatim>\<open>visit\<close> that returns leaves behind: only marks changed, the nodes in progress are
  the same, and no permanent mark was taken back.
\<close>

definition visit_post :: "dstate \<Rightarrow> dstate \<Rightarrow> bool" where
  "visit_post st st' \<longleftrightarrow>
     graph_of st' = graph_of st \<and>
     marked TEMPORARY_MARK st' = marked TEMPORARY_MARK st \<and>
     marked PERMANENT_MARK st \<subseteq> marked PERMANENT_MARK st'"

text \<open>Every node that depends on an element of the list stands behind it in the list.\<close>

fun ordered :: "snode list \<Rightarrow> nat list \<Rightarrow> bool" where
  "ordered ns [] = True"
| "ordered ns (i # rs) =
     ((\<forall>j<length ns. depends_on (ns ! j) (ns ! i) \<longrightarrow> j \<in> set rs) \<and> ordered ns rs)"

text \<open>
The invariant of the traversal: \<^verbatim>\<open>result\<close> holds exactly the permanently marked nodes,
  once each, each ahead of all nodes that depend on it.
\<close>

definition dfs_inv :: "dstate \<Rightarrow> bool" where
  "dfs_inv st \<longleftrightarrow>
     distinct (result st) \<and> set (result st) = marked PERMANENT_MARK st \<and>
     ordered (graph_of st) (result st)"

text \<open>
The depends relation of an array of nodes, as edges between indices: \<open>(i, j)\<close> when
  node \<open>j\<close> depends on node \<open>i\<close>.
\<close>

definition dep_edges :: "snode list \<Rightarrow> (nat \<times> nat) list" where
  "dep_edges ns =
     concat (map (\<lambda>i. map (\<lambda>j. (i, j))
       (filter (\<lambda>j. depends_on (ns ! j) (ns ! i)) [0..<length ns])) [0..<length ns])"

text \<open>
Dependency order of a sequence of nodes: whenever the node at \<open>q\<close> depends on the node
  at \<open>p\<close>, \<open>p\<close> is the smaller index.
\<close>

definition topological :: "snode list \<Rightarrow> bool" where
  "topological ns \<longleftrightarrow>
     (\<forall>p q. p < length ns \<longrightarrow> q < length ns \<longrightarrow> depends_on (ns ! q) (ns ! p) \<longrightarrow> p < q)"

text \<open>Freshly serialized nodes: no mark is set.\<close>

definition fresh :: "snode list \<Rightarrow> bool" where
  "fresh ns \<longleftrightarrow> (\<forall>x\<in>set ns. mark x = Unmarked)"

text \<open>No node depends on any node of the array.\<close>

definition independent :: "snode list \<Rightarrow> bool" where
  "independent ns \<longleftrightarrow> dep_edges ns = []"

text \<open>The depends relation among the input records, read through the serializer, has no cycle.\<close>

definition acyclic_input :: "serializer \<Rightarrow> jsrecord list \<Rightarrow> bool" where
  "acyclic_input s recs \<longleftrightarrow> acyclic (set (dep_edges (map (serialize s) recs)))"

text \<open>
The invariant of the two \<^verbatim>\<open>swapInRange\<close> calls of the negative pass at index \<open>i\<close>: the
  array is a permutation in dependency order, and no node of the first \<open>i + 1\<close> places
  depends on the moving node at \<open>pos\<close>.
\<close>

definition floats_down :: "snode list \<Rightarrow> nat \<Rightarrow> snode list \<Rightarrow> nat \<Rightarrow> bool" where
  "floats_down arr i a pos \<longleftrightarrow>
     mset a = mset arr \<and> topological a \<and>
     (\<forall>k\<le>i. k \<noteq> pos \<longrightarrow> \<not> depends_on (a ! k) (a ! pos))"

text \<open>
The heap \<open>h\<close> keeps every object of \<open>h0\<close> as it was: the records, and each array and node
  object allocated in \<open>h0\<close>.
\<close>

definition extends :: "heap \<Rightarrow> heap \<Rightarrow> bool" where
  "extends h0 h \<longleftrightarrow>
     next_addr h0 \<le> next_addr h \<and> records h = records h0 \<and>
     (\<forall>b<next_addr h0. arrays h b = arrays h0 b \<and> wrappers h b = wrappers h0 b)"

text \<open>Nothing lives at or beyond the next free address.\<close>

definition allocated :: "heap \<Rightarrow> bool" where
  "allocated h \<longleftrightarrow>
     (\<forall>b. next_addr h \<le> b \<longrightarrow> arrays h b = None \<and> wrappers h b = None \<and> records h b = None)"

text \<open>A result over an array of references, read through \<open>W\<close>.\<close>

definition lift :: "('a \<Rightarrow> 'b) \<Rightarrow> error + ('r option \<times> 'a list) \<Rightarrow> error + ('r option \<times> 'b list)" where
  "lift W = map_sum (\<lambda>e. e) (map_prod (\<lambda>r. r) (map W))"

text \<open>
The invariant of the positive pass at index \<open>i\<close>: the moving node at \<open>pos\<close> depends on
  no node from place \<open>i\<close> on.
\<close>

definition floats_up :: "snode list \<Rightarrow> nat \<Rightarrow> snode list \<Rightarrow> nat \<Rightarrow> bool" where
  "floats_up arr i a pos \<longleftrightarrow>
     mset a = mset arr \<and> topological a \<and>
     (\<forall>k. i \<le> k \<and> k < length a \<and> k \<noteq> pos \<longrightarrow> \<not> depends_on (a ! pos) (a ! k))"

section \<open>The documented scenario\<close>

text \<open>The queue of people of the README, sorted with \<^verbatim>\<open>{ idProperty: "name" }\<close>.\<close>

definition named :: "nat \<Rightarrow> string \<Rightarrow> (string \<times> jsval) list \<Rightarrow> jsrecord" where
  "named r name ps = \<lparr>ref = r, props = (''name'', VStr name) # ps\<rparr>"

definition Jim :: jsrecord where
  "Jim = named 0 ''Jim'' []"

definition Donna :: jsrecord where
  "Donna = named 1 ''Donna'' [(''weight'', VNum (Fin (-100)))]"

definition Billie :: jsrecord where
  "Billie = named 2 ''Billie'' [(''weight'', VNum (Fin (-5)))]"

definition Chris :: jsrecord where
  "Chris = named 3 ''Chris'' [(''weight'', VNum PosInf)]"

definition Jerk :: jsrecord where
  "Jerk = named 4 ''Jerk'' [(''depends'', VArr 8 [VStr ''Chris'']), (''weight'', VNum (Fin 100))]"

definition Sherry :: jsrecord where
  "Sherry = named 5 ''Sherry'' [(''depends'', VStr ''Donna''), (''weight'', VNum NegInf)]"

definition Dillon :: jsrecord where
  "Dillon = named 6 ''Dillon'' [(''weight'', VNum (Fin 10))]"

definition Tom :: jsrecord where
  "Tom = named 7 ''Tom''
     [(''depends'', VArr 9 [VStr ''Donna'', VStr ''Sherry'']), (''weight'', VNum (Fin (-10)))]"

definition peopleSorter :: serializer where
  "peopleSorter = Serializer (Some \<lparr>opt_defaultWeight = VUndefined, opt_idProperty = Some ''name'',
     opt_weightProperty = None, opt_dependsProperty = None\<rparr>)"

text \<open>The sorter \<^verbatim>\<open>new DependencySorter()\<close>, without options.\<close>

definition defaultSorter :: serializer where
  "defaultSorter = Serializer None"

text \<open>Records and nodes for the examples below.\<close>

definition rec_a :: jsrecord where
  "rec_a = \<lparr>ref = 0, props = [(''id'', VStr ''a'')]\<rparr>"

definition rec_b :: jsrecord where
  "rec_b = \<lparr>ref = 1, props = [(''id'', VStr ''b''), (''depends'', VStr ''a'')]\<rparr>"

definition rec_x :: jsrecord where
  "rec_x = \<lparr>ref = 2, props = [(''id'', VStr ''x''), (''depends'', VStr ''nonexistent'')]\<rparr>"

definition rec_heavy :: jsrecord where
  "rec_heavy = \<lparr>ref = 3, props = [(''id'', VStr ''heavy''), (''weight'', VNum (Fin 5))]\<rparr>"

definition rec_light :: jsrecord where
  "rec_light = \<lparr>ref = 9, props = [(''id'', VStr ''light'')]\<rparr>"

definition rec_anon :: jsrecord where
  "rec_anon = \<lparr>ref = 4, props = [(''weight'', VStr ''1''), (''depends'', VArr 5 [VStr ''a'', VStr ''x''])]\<rparr>"

definition rec_c1 :: jsrecord where
  "rec_c1 = \<lparr>ref = 10, props = [(''id'', VStr ''a''), (''depends'', VStr ''b'')]\<rparr>"

definition rec_c2 :: jsrecord where
  "rec_c2 = \<lparr>ref = 11, props = [(''id'', VStr ''b''), (''depends'', VStr ''a'')]\<rparr>"

definition node_z :: snode where
  "node_z = \<lparr>id' = VStr ''z'', weight = Fin 0, depends = [], mark = PERMANENT_MARK,
     node = \<lparr>ref = 6, props = [(''id'', VStr ''z'')]\<rparr>\<rparr>"

definition node_m :: snode where
  "node_m = \<lparr>id' = VStr ''m'', weight = Fin (-1), depends = [], mark = PERMANENT_MARK,
     node = \<lparr>ref = 7, props = [(''id'', VStr ''m''), (''weight'', VNum (Fin (-1)))]\<rparr>\<rparr>"

definition node_p :: snode where
  "node_p = \<lparr>id' = VStr ''p'', weight = Fin 1, depends = [], mark = PERMANENT_MARK,
     node = \<lparr>ref = 8, props = [(''id'', VStr ''p''), (''weight'', VNum (Fin 1))]\<rparr>\<rparr>"

definition ex_heap :: heap where
  "ex_heap = \<lparr>arrays = [2 \<mapsto> [1, 0]], wrappers = Map.empty,
     records = [0 \<mapsto> props rec_a, 1 \<mapsto> props rec_b], next_addr = 3\<rparr>"

section \<open>Marks written by the traversal\<close>

lemma depends_on_unmark [simp]: "depends_on (unmark a) (unmark b) = depends_on a b"
  by (simp add: depends_on_def unmark_def)

lemma length_graph_of [simp]: "length (graph_of st) = length (objs st)"
  by (simp add: graph_of_def)

lemma graph_of_length: "graph_of st' = graph_of st \<Longrightarrow> length (objs st') = length (objs st)"
  by (metis length_graph_of)

lemma graph_of_depends:
  assumes "graph_of st' = graph_of st" "i < length (objs st)" "j < length (objs st)"
  shows "depends_on (objs st' ! j) (objs st' ! i) = depends_on (objs st ! j) (objs st ! i)"
proof -
  have l: "length (objs st') = length (objs st)" using assms(1) by (rule graph_of_length)
  have "unmark (objs st' ! k) = unmark (objs st ! k)" if "k < length (objs st)" for k
    using assms(1) that l unfolding graph_of_def by (metis nth_map)
  then show ?thesis using assms(2,3) by (metis depends_on_unmark)
qed

lemma objs_set_mark [simp]: "length (objs (set_mark i m st)) = length (objs st)"
  by (simp add: set_mark_def)

lemma result_set_mark [simp]: "result (set_mark i m st) = result st"
  by (simp add: set_mark_def)

lemma objs_unshift [simp]: "objs (unshift i st) = objs st"
  by (simp add: unshift_def)

lemma result_unshift [simp]: "result (unshift i st) = i # result st"
  by (simp add: unshift_def)

lemma mark_set_mark:
  "j < length (objs st) \<Longrightarrow> mark (objs (set_mark i m st) ! j) = (if j = i then m else mark (objs st ! j))"
  by (simp add: set_mark_def nth_list_update)

lemma graph_of_set_mark [simp]: "graph_of (set_mark i m st) = graph_of st"
proof (rule nth_equalityI)
  show "length (graph_of (set_mark i m st)) = length (graph_of st)" by simp
next
  fix k assume "k < length (graph_of (set_mark i m st))"
  then have k: "k < length (objs st)" by simp
  show "graph_of (set_mark i m st) ! k = graph_of st ! k"
    using k by (cases "k = i") (simp_all add: graph_of_def set_mark_def unmark_def)
qed

lemma graph_of_unshift [simp]: "graph_of (unshift i st) = graph_of st"
  by (simp add: graph_of_def)

lemma depends_on_set_mark:
  "i < length (objs st) \<Longrightarrow> j < length (objs st) \<Longrightarrow>
   depends_on (objs (set_mark k m st) ! j) (objs (set_mark k m st) ! i)
     = depends_on (objs st ! j) (objs st ! i)"
  by (rule graph_of_depends) simp_all

lemma marked_set_mark:
  "i < length (objs st) \<Longrightarrow>
   marked m' (set_mark i m st) = (if m' = m then insert i (marked m' st) else marked m' st - {i})"
  by (auto simp: marked_def mark_set_mark)

lemma marked_unshift [simp]: "marked m (unshift i st) = marked m st"
  by (simp add: marked_def)

lemma graph_of_nth: "k < length (objs st) \<Longrightarrow> graph_of st ! k = unmark (objs st ! k)"
  by (simp add: graph_of_def)

lemma visit_post_refl [simp]: "visit_post st st"
  by (simp add: visit_post_def)

lemma visit_post_trans: "visit_post st st1 \<Longrightarrow> visit_post st1 st2 \<Longrightarrow> visit_post st st2"
  by (auto simp: visit_post_def)

lemma visit_marks:
  "visit i st = Inr st' \<Longrightarrow> visit_post st st' \<and> i \<in> marked PERMANENT_MARK st'"
  "visit_forEach i js st = Inr st'' \<Longrightarrow> i < length (objs st) \<Longrightarrow> set js \<subseteq> {..<length (objs st)} \<Longrightarrow>
     visit_post st st'' \<and>
     (\<forall>j\<in>set js. depends_on (objs st ! j) (objs st ! i) \<longrightarrow> j \<in> marked PERMANENT_MARK st'')"
proof (induction i st and i js st arbitrary: st' and st'' rule: visit_visit_forEach.induct)
  case (1 i st)
  show ?case
  proof (cases "mark (objs st ! i)")
    case Unmarked
    from 1(2) Unmarked obtain st2 where
      r: "visit_forEach i [0..<length (objs st)] (set_mark i TEMPORARY_MARK st) = Inr st2"
      and e: "st' = unshift i (set_mark i PERMANENT_MARK st2)" and lt: "\<not> length (objs st) \<le> i"
      by (auto simp: visit.simps split: if_splits sum.splits)
    let ?st1 = "set_mark i TEMPORARY_MARK st"
    have pre: "i < length (objs ?st1)" "set [0..<length (objs st)] \<subseteq> {..<length (objs ?st1)}"
      using lt by auto
    have p: "visit_post ?st1 st2"
      using 1(1)[OF lt Unmarked r pre] by simp
    have l2: "length (objs st2) = length (objs st)"
      using p by (metis graph_of_length visit_post_def objs_set_mark)
    have i2: "i < length (objs st2)" using l2 lt by simp
    have il: "i < length (objs st)" using lt by simp
    have notT: "i \<notin> marked TEMPORARY_MARK st" "i \<notin> marked PERMANENT_MARK st"
      using Unmarked by (auto simp: marked_def)
    have "visit_post st st'"
      using p notT il i2 unfolding visit_post_def e
      by (auto simp: marked_set_mark)
    moreover have "i \<in> marked PERMANENT_MARK st'"
      using i2 by (simp add: e marked_set_mark)
    ultimately show ?thesis by simp
  next
    case TEMPORARY_MARK
    with 1(2) show ?thesis by (simp add: visit.simps split: if_splits)
  next
    case PERMANENT_MARK
    with 1(2) show ?thesis by (auto simp: visit.simps marked_def split: if_splits)
  qed
next
  case (2 i st)
  then show ?case by simp
next
  case (3 i j js st)
  have jl: "j < length (objs st)" and jsl: "set js \<subseteq> {..<length (objs st)}"
    using 3(6) by auto
  show ?case
  proof (cases "depends_on (objs st ! j) (objs st ! i)")
    case True
    from 3(4) True obtain st2 where
      v: "visit j st = Inr st2" and r: "visit_forEach i js st2 = Inr st''"
      by (auto split: sum.splits)
    have p1: "visit_post st st2" and j2: "j \<in> marked PERMANENT_MARK st2"
      using 3(1)[OF True v] by auto
    have l2: "length (objs st2) = length (objs st)"
      using p1 by (metis graph_of_length visit_post_def)
    have p2: "visit_post st2 st''"
      and d2: "\<forall>k\<in>set js. depends_on (objs st2 ! k) (objs st2 ! i) \<longrightarrow> k \<in> marked PERMANENT_MARK st''"
      using 3(2)[OF True v r] 3(5) jsl l2 by auto
    have g: "graph_of st2 = graph_of st" using p1 by (simp add: visit_post_def)
    have "\<forall>k\<in>set js. depends_on (objs st ! k) (objs st ! i) \<longrightarrow> k \<in> marked PERMANENT_MARK st''"
      using d2 graph_of_depends[OF g 3(5)] jsl by auto
    moreover have "j \<in> marked PERMANENT_MARK st''"
      using j2 p2 by (auto simp: visit_post_def)
    ultimately show ?thesis using visit_post_trans[OF p1 p2] by simp
  next
    case False
    with 3(4) have r: "visit_forEach i js st = Inr st''" by simp
    show ?thesis using 3(3)[OF False r 3(5) jsl] False by simp
  qed
qed

lemma forEach_unmarked_marks:
  "forEach_unmarked is st = Inr st' \<Longrightarrow> set is \<subseteq> {..<length (objs st)} \<Longrightarrow>
   marked TEMPORARY_MARK st = {} \<Longrightarrow>
   visit_post st st' \<and> set is \<subseteq> marked PERMANENT_MARK st'"
proof (induction "is" arbitrary: st)
  case Nil
  then show ?case by simp
next
  case (Cons i "is")
  have il: "i < length (objs st)" and isl: "set is \<subseteq> {..<length (objs st)}"
    using Cons.prems(2) by auto
  show ?case
  proof (cases "mark (objs st ! i) = Unmarked")
    case True
    with Cons.prems(1) obtain st2 where
      v: "visit i st = Inr st2" and r: "forEach_unmarked is st2 = Inr st'"
      by (auto split: sum.splits)
    have p1: "visit_post st st2" and i2: "i \<in> marked PERMANENT_MARK st2"
      using visit_marks(1)[OF v] by auto
    have l2: "length (objs st2) = length (objs st)"
      using p1 by (metis graph_of_length visit_post_def)
    have T2: "marked TEMPORARY_MARK st2 = {}"
      using p1 Cons.prems(3) by (simp add: visit_post_def)
    have p2: "visit_post st2 st'" and s2: "set is \<subseteq> marked PERMANENT_MARK st'"
      using Cons.IH[OF r _ T2] isl l2 by auto
    have "i \<in> marked PERMANENT_MARK st'" using i2 p2 by (auto simp: visit_post_def)
    then show ?thesis using visit_post_trans[OF p1 p2] s2 by simp
  next
    case False
    with Cons.prems(1) have r: "forEach_unmarked is st = Inr st'" by simp
    have p: "visit_post st st'" and s: "set is \<subseteq> marked PERMANENT_MARK st'"
      using Cons.IH[OF r isl Cons.prems(3)] by auto
    have "mark (objs st ! i) \<noteq> TEMPORARY_MARK"
      using Cons.prems(3) il by (auto simp: marked_def)
    with False have "mark (objs st ! i) = PERMANENT_MARK" by (cases "mark (objs st ! i)") auto
    then have "i \<in> marked PERMANENT_MARK st" using il by (simp add: marked_def)
    then have "i \<in> marked PERMANENT_MARK st'" using p by (auto simp: visit_post_def)
    then show ?thesis using p s by simp
  qed
qed

lemma forEach_unmarked_skip:
  "\<forall>i\<in>set is. mark (objs st ! i) \<noteq> Unmarked \<Longrightarrow> forEach_unmarked is st = Inr st"
  by (induction "is") auto

section \<open>The result of the traversal is in dependency order\<close>

lemma visit_inv:
  "visit i st = Inr st' \<Longrightarrow> dfs_inv st \<Longrightarrow> dfs_inv st'"
  "visit_forEach i js st = Inr st'' \<Longrightarrow> i < length (objs st) \<Longrightarrow> set js \<subseteq> {..<length (objs st)} \<Longrightarrow>
     dfs_inv st \<Longrightarrow> dfs_inv st''"
proof (induction i st and i js st arbitrary: st' and st'' rule: visit_visit_forEach.induct)
  case (1 i st)
  show ?case
  proof (cases "mark (objs st ! i)")
    case Unmarked
    from 1(2) Unmarked obtain st2 where
      r: "visit_forEach i [0..<length (objs st)] (set_mark i TEMPORARY_MARK st) = Inr st2"
      and e: "st' = unshift i (set_mark i PERMANENT_MARK st2)" and lt: "\<not> length (objs st) \<le> i"
      by (auto simp: visit.simps split: if_splits sum.splits)
    let ?st1 = "set_mark i TEMPORARY_MARK st"
    have il: "i < length (objs st)" using lt by simp
    have pre: "i < length (objs ?st1)" "set [0..<length (objs st)] \<subseteq> {..<length (objs ?st1)}"
      using lt by auto
    have notP: "i \<notin> marked PERMANENT_MARK st"
      using Unmarked by (auto simp: marked_def)
    have inv1: "dfs_inv ?st1"
      using 1(3) notP il by (simp add: dfs_inv_def marked_set_mark)
    have inv2: "dfs_inv st2" using 1(1)[OF lt Unmarked r pre inv1] .
    have post: "visit_post ?st1 st2"
      and deps: "\<forall>j\<in>set [0..<length (objs st)].
         depends_on (objs ?st1 ! j) (objs ?st1 ! i) \<longrightarrow> j \<in> marked PERMANENT_MARK st2"
      using visit_marks(2)[OF r pre] by auto
    have g2: "graph_of st2 = graph_of ?st1" using post by (simp add: visit_post_def)
    have l2: "length (objs st2) = length (objs st)"
      using g2 by (metis graph_of_length objs_set_mark)
    have i2: "i < length (objs st2)" using l2 il by simp
    have "i \<in> marked TEMPORARY_MARK ?st1" using il by (simp add: marked_set_mark)
    then have "i \<in> marked TEMPORARY_MARK st2" using post by (simp add: visit_post_def)
    then have notP2: "i \<notin> marked PERMANENT_MARK st2" by (auto simp: marked_def)
    have d: "distinct (result st')"
      using inv2 notP2 by (simp add: e dfs_inv_def)
    have s: "set (result st') = marked PERMANENT_MARK st'"
      using inv2 i2 by (simp add: e dfs_inv_def marked_set_mark)
    have gg: "graph_of st' = graph_of st2" by (simp add: e)
    have "\<forall>j<length (graph_of st2). depends_on (graph_of st2 ! j) (graph_of st2 ! i)
            \<longrightarrow> j \<in> set (result st2)"
    proof (intro allI impI)
      fix j assume j: "j < length (graph_of st2)"
        and dj: "depends_on (graph_of st2 ! j) (graph_of st2 ! i)"
      have jl: "j < length (objs st)" using j l2 by simp
      have a: "graph_of ?st1 ! j = unmark (objs ?st1 ! j)" "graph_of ?st1 ! i = unmark (objs ?st1 ! i)"
        using jl il by (simp_all only: graph_of_nth objs_set_mark)
      have "depends_on (objs ?st1 ! j) (objs ?st1 ! i)"
        using dj unfolding g2 a by (simp only: depends_on_unmark)
      then have "j \<in> marked PERMANENT_MARK st2" using deps jl by simp
      then show "j \<in> set (result st2)" using inv2 by (simp add: dfs_inv_def)
    qed
    then have o: "ordered (graph_of st') (result st')"
      using inv2 by (simp add: e dfs_inv_def)
    show ?thesis using d s o by (simp add: dfs_inv_def)
  next
    case TEMPORARY_MARK
    with 1(2) show ?thesis by (simp add: visit.simps split: if_splits)
  next
    case PERMANENT_MARK
    with 1(2,3) show ?thesis by (auto simp: visit.simps split: if_splits)
  qed
next
  case (2 i st)
  then show ?case by simp
next
  case (3 i j js st)
  have jl: "j < length (objs st)" and jsl: "set js \<subseteq> {..<length (objs st)}"
    using 3(6) by auto
  show ?case
  proof (cases "depends_on (objs st ! j) (objs st ! i)")
    case True
    from 3(4) True obtain st2 where
      v: "visit j st = Inr st2" and r: "visit_forEach i js st2 = Inr st''"
      by (auto split: sum.splits)
    have p1: "visit_post st st2" using visit_marks(1)[OF v] by simp
    have l2: "length (objs st2) = length (objs st)"
      using p1 by (metis graph_of_length visit_post_def)
    have "dfs_inv st2" using 3(1)[OF True v 3(7)] .
    then show ?thesis using 3(2)[OF True v r] 3(5) jsl l2 by simp
  next
    case False
    with 3(4) have r: "visit_forEach i js st = Inr st''" by simp
    show ?thesis using 3(3)[OF False r 3(5) jsl 3(7)] .
  qed
qed

lemma forEach_unmarked_inv:
  "forEach_unmarked is st = Inr st' \<Longrightarrow> dfs_inv st \<Longrightarrow> dfs_inv st'"
proof (induction "is" arbitrary: st)
  case Nil
  then show ?case by simp
next
  case (Cons i "is")
  show ?case
  proof (cases "mark (objs st ! i) = Unmarked")
    case True
    with Cons.prems(1) obtain st2 where
      v: "visit i st = Inr st2" and r: "forEach_unmarked is st2 = Inr st'"
      by (auto split: sum.splits)
    show ?thesis using Cons.IH[OF r visit_inv(1)[OF v Cons.prems(2)]] .
  next
    case False
    with Cons.prems(1) have r: "forEach_unmarked is st = Inr st'" by simp
    show ?thesis using Cons.IH[OF r Cons.prems(2)] .
  qed
qed

lemma ordered_nth:
  "ordered g r \<Longrightarrow> p < length r \<Longrightarrow> j < length g \<Longrightarrow> depends_on (g ! j) (g ! (r ! p)) \<Longrightarrow>
   j \<in> set (drop (Suc p) r)"
proof (induction r arbitrary: p)
  case Nil
  then show ?case by simp
next
  case (Cons a r)
  then show ?case by (cases p) auto
qed

lemma ordered_positions:
  assumes "ordered g r" "distinct r" "p < length r" "q < length r" "r ! q < length g"
    and "depends_on (g ! (r ! q)) (g ! (r ! p))"
  shows "p < q"
proof -
  have "r ! q \<in> set (drop (Suc p) r)" using ordered_nth[OF assms(1,3,5,6)] .
  then obtain k where k: "k < length (drop (Suc p) r)" "drop (Suc p) r ! k = r ! q"
    by (auto simp: in_set_conv_nth)
  then have "r ! (Suc p + k) = r ! q" "Suc p + k < length r" by auto
  then have "Suc p + k = q" using assms(2,4) by (simp add: nth_eq_iff_index_eq)
  then show ?thesis by simp
qed

section \<open>Errors of the traversal come from cycles\<close>

lemma set_dep_edges:
  "(a, b) \<in> set (dep_edges ns) \<longleftrightarrow> a < length ns \<and> b < length ns \<and> depends_on (ns ! b) (ns ! a)"
  by (auto simp: dep_edges_def)

lemma dep_edges_graph_of:
  "set (dep_edges (graph_of st)) = set (dep_edges (objs st))"
  by (auto simp: set_dep_edges graph_of_nth)

lemma visit_error:
  "visit i st = Inl e \<Longrightarrow> i < length (objs st) \<Longrightarrow>
     \<forall>t\<in>marked TEMPORARY_MARK st. (t, i) \<in> (set (dep_edges (graph_of st)))\<^sup>+ \<Longrightarrow>
     \<exists>c<length (objs st). (c, c) \<in> (set (dep_edges (graph_of st)))\<^sup>+ \<and> e = CycleError (id' (objs st ! c))"
  "visit_forEach i js st = Inl e \<Longrightarrow> i < length (objs st) \<Longrightarrow> set js \<subseteq> {..<length (objs st)} \<Longrightarrow>
     \<forall>t\<in>marked TEMPORARY_MARK st. (t, i) \<in> (set (dep_edges (graph_of st)))\<^sup>* \<Longrightarrow>
     \<exists>c<length (objs st). (c, c) \<in> (set (dep_edges (graph_of st)))\<^sup>+ \<and> e = CycleError (id' (objs st ! c))"
proof (induction i st and i js st rule: visit_visit_forEach.induct)
  case (1 i st)
  show ?case
  proof (cases "mark (objs st ! i)")
    case Unmarked
    let ?st1 = "set_mark i TEMPORARY_MARK st"
    from 1(2,3) Unmarked have
      r: "visit_forEach i [0..<length (objs st)] ?st1 = Inl e" and lt: "\<not> length (objs st) \<le> i"
      by (auto simp: visit.simps split: if_splits sum.splits)
    have pre: "i < length (objs ?st1)" "set [0..<length (objs st)] \<subseteq> {..<length (objs ?st1)}"
      using lt by auto
    have "\<forall>t\<in>marked TEMPORARY_MARK ?st1. (t, i) \<in> (set (dep_edges (graph_of ?st1)))\<^sup>*"
      using 1(4) 1(3) by (auto simp: marked_set_mark)
    from 1(1)[OF lt Unmarked r pre this] obtain c where
      "c < length (objs st)" "(c, c) \<in> (set (dep_edges (graph_of st)))\<^sup>+"
      "e = CycleError (id' (objs ?st1 ! c))" by auto
    moreover have "id' (objs ?st1 ! c) = id' (objs st ! c)"
      by (cases "c = i") (simp_all add: set_mark_def 1(3))
    ultimately show ?thesis by auto
  next
    case TEMPORARY_MARK
    then have "i \<in> marked TEMPORARY_MARK st" using 1(3) by (simp add: marked_def)
    then have "(i, i) \<in> (set (dep_edges (graph_of st)))\<^sup>+" using 1(4) by blast
    moreover have "e = CycleError (id' (objs st ! i))"
      using 1(2,3) TEMPORARY_MARK by (simp add: visit.simps)
    ultimately show ?thesis using 1(3) by blast
  next
    case PERMANENT_MARK
    with 1(2,3) show ?thesis by (auto simp: visit.simps split: if_splits)
  qed
next
  case (2 i st)
  then show ?case by simp
next
  case (3 i j js st)
  have jl: "j < length (objs st)" and jsl: "set js \<subseteq> {..<length (objs st)}"
    using 3(6) by auto
  show ?case
  proof (cases "depends_on (objs st ! j) (objs st ! i)")
    case True
    have edge: "(i, j) \<in> set (dep_edges (graph_of st))"
      using True jl 3(5) by (simp add: dep_edges_graph_of set_dep_edges)
    have prej: "\<forall>t\<in>marked TEMPORARY_MARK st. (t, j) \<in> (set (dep_edges (graph_of st)))\<^sup>+"
      using 3(7) edge by (meson rtrancl_into_trancl1)
    show ?thesis
    proof (cases "visit j st")
      case (Inl e')
      with 3(4) True have "e' = e" by simp
      with Inl 3(1)[OF True _ jl prej] show ?thesis by simp
    next
      case (Inr st2)
      with 3(4) True have r: "visit_forEach i js st2 = Inl e" by simp
      have p1: "visit_post st st2" using visit_marks(1)[OF Inr] by simp
      have g: "graph_of st2 = graph_of st" using p1 by (simp add: visit_post_def)
      have l2: "length (objs st2) = length (objs st)" using g by (rule graph_of_length)
      have T: "marked TEMPORARY_MARK st2 = marked TEMPORARY_MARK st"
        using p1 by (simp add: visit_post_def)
      have "\<exists>c<length (objs st2). (c, c) \<in> (set (dep_edges (graph_of st2)))\<^sup>+
              \<and> e = CycleError (id' (objs st2 ! c))"
        using 3(2)[OF True Inr r] 3(5,7) jsl l2 g T by simp
      then obtain c where c: "c < length (objs st)" "(c, c) \<in> (set (dep_edges (graph_of st)))\<^sup>+"
        "e = CycleError (id' (objs st2 ! c))" using l2 g by auto
      have "unmark (objs st2 ! c) = unmark (objs st ! c)"
        using g c(1) l2 by (metis graph_of_nth)
      then have "id' (objs st2 ! c) = id' (objs st ! c)"
        by (metis depends_on_unmark unmark_def snode.select_convs(1) snode.surjective snode.update_convs(4))
      then show ?thesis using c by auto
    qed
  next
    case False
    with 3(4) have r: "visit_forEach i js st = Inl e" by simp
    show ?thesis using 3(3)[OF False r 3(5) jsl 3(7)] .
  qed
qed

lemma forEach_unmarked_error:
  "forEach_unmarked is st = Inl e \<Longrightarrow> set is \<subseteq> {..<length (objs st)} \<Longrightarrow>
   marked TEMPORARY_MARK st = {} \<Longrightarrow>
   \<exists>c<length (objs st). (c, c) \<in> (set (dep_edges (graph_of st)))\<^sup>+ \<and> e = CycleError (id' (objs st ! c))"
proof (induction "is" arbitrary: st)
  case Nil
  then show ?case by simp
next
  case (Cons i "is")
  have il: "i < length (objs st)" and isl: "set is \<subseteq> {..<length (objs st)}"
    using Cons.prems(2) by auto
  show ?case
  proof (cases "mark (objs st ! i) = Unmarked")
    case True
    show ?thesis
    proof (cases "visit i st")
      case (Inl e')
      with Cons.prems(1) True have "e' = e" by simp
      with Inl visit_error(1)[of i st e] il Cons.prems(3) show ?thesis by simp
    next
      case (Inr st2)
      with Cons.prems(1) True have r: "forEach_unmarked is st2 = Inl e" by simp
      have p1: "visit_post st st2" using visit_marks(1)[OF Inr] by simp
      have g: "graph_of st2 = graph_of st" using p1 by (simp add: visit_post_def)
      have l2: "length (objs st2) = length (objs st)" using g by (rule graph_of_length)
      have T2: "marked TEMPORARY_MARK st2 = {}"
        using p1 Cons.prems(3) by (simp add: visit_post_def)
      from Cons.IH[OF r _ T2] isl l2 g obtain c where
        c: "c < length (objs st)" "(c, c) \<in> (set (dep_edges (graph_of st)))\<^sup>+"
        "e = CycleError (id' (objs st2 ! c))" by auto
      have "unmark (objs st2 ! c) = unmark (objs st ! c)"
        using g c(1) l2 by (metis graph_of_nth)
      then have "id' (objs st2 ! c) = id' (objs st ! c)"
        by (metis depends_on_unmark unmark_def snode.select_convs(1) snode.surjective snode.update_convs(4))
      then show ?thesis using c by auto
    qed
  next
    case False
    with Cons.prems(1) have r: "forEach_unmarked is st = Inl e" by simp
    show ?thesis using Cons.IH[OF r isl Cons.prems(3)] .
  qed
qed

lemma ordered_acyclic:
  assumes d: "distinct r" and s: "set r = {..<length g}" and o: "ordered g r"
  shows "acyclic (set (dep_edges g))"
proof -
  have step: "p < q" if "(a, b) \<in> (set (dep_edges g))\<^sup>+" "p < length r" "q < length r"
    "r ! p = a" "r ! q = b" for a b p q
    using that
  proof (induction arbitrary: q rule: trancl_induct)
    case (base y)
    then have "y < length g" "depends_on (g ! y) (g ! a)" by (auto simp: set_dep_edges)
    then show ?case using ordered_positions[OF o d base(2,3)] base(4,5) by simp
  next
    case (step y z)
    from step(2) have y: "y < length g" and z: "z < length g" and dz: "depends_on (g ! z) (g ! y)"
      by (auto simp: set_dep_edges)
    from y s obtain m where m: "m < length r" "r ! m = y"
      by (metis in_set_conv_nth lessThan_iff)
    have "p < m" using step(3)[OF step(4) m(1) step(6) m(2)] .
    moreover have "m < q"
      using ordered_positions[OF o d m(1) step(5)] z dz m(2) step(7) by simp
    ultimately show ?case by simp
  qed
  show ?thesis
  proof (unfold acyclic_def, intro allI notI)
    fix x assume x: "(x, x) \<in> (set (dep_edges g))\<^sup>+"
    then have "(x, x) \<in> (set (dep_edges g))\<^sup>+" .
    from tranclD[OF x] have "x < length g" by (auto simp: set_dep_edges)
    with s obtain m where m: "m < length r" "r ! m = x"
      by (metis in_set_conv_nth lessThan_iff)
    from step[OF x m(1) m(1) m(2) m(2)] show False by simp
  qed
qed

lemma topological_acyclic:
  assumes "topological ns"
  shows "acyclic (set (dep_edges ns))"
proof -
  have "set (dep_edges ns) \<subseteq> less_than"
    using assms by (auto simp: set_dep_edges topological_def)
  then show ?thesis
    by (meson acyclic_subset wf_acyclic wf_less_than)
qed

section \<open>Results of sortByDepends\<close>

lemma marked_init:
  "marked m \<lparr>objs = ns, result = []\<rparr> = {i. i < length ns \<and> mark (ns ! i) = m}"
  by (simp add: marked_def)

lemma unmark_eq_mark: "unmark a = unmark b \<Longrightarrow> a\<lparr>mark := m\<rparr> = b\<lparr>mark := m\<rparr>"
  by (metis unmark_def snode.update_convs(4) snode.surjective)

lemma sortByDepends_Inr:
  assumes f: "fresh ns" and r: "sortByDepends ns = Inr (objs', res)"
  shows "objs' = map (\<lambda>x. x\<lparr>mark := PERMANENT_MARK\<rparr>) ns \<and> mset res = mset objs' \<and> topological res
    \<and> acyclic (set (dep_edges ns))"
proof -
  let ?st0 = "\<lparr>objs = ns, result = []\<rparr>"
  from r obtain st where fe: "forEach_unmarked [0..<length ns] ?st0 = Inr st"
    and o: "objs' = objs st" and rs: "res = map (\<lambda>i. objs st ! i) (result st)"
    by (auto simp: sortByDepends_def split: sum.splits)
  have T0: "marked TEMPORARY_MARK ?st0 = {}" and P0: "marked PERMANENT_MARK ?st0 = {}"
    using f by (auto simp: marked_init fresh_def)
  have inv0: "dfs_inv ?st0" using P0 by (simp add: dfs_inv_def)
  have sub: "set [0..<length ns] \<subseteq> {..<length (objs ?st0)}" by auto
  have post: "visit_post ?st0 st" and all: "set [0..<length ns] \<subseteq> marked PERMANENT_MARK st"
    using forEach_unmarked_marks[OF fe sub T0] by auto
  have inv: "dfs_inv st" using forEach_unmarked_inv[OF fe inv0] .
  have g: "graph_of st = map unmark ns" using post by (simp add: visit_post_def graph_of_def)
  have l: "length (objs st) = length ns" using g by (metis length_graph_of length_map)
  have P: "marked PERMANENT_MARK st = {..<length ns}"
    using all l by (auto simp: marked_def)
  have sr: "set (result st) = {..<length ns}" and dr: "distinct (result st)"
    and orr: "ordered (graph_of st) (result st)"
    using inv P by (auto simp: dfs_inv_def)
  have nth: "objs st ! k = (ns ! k)\<lparr>mark := PERMANENT_MARK\<rparr>" if "k < length ns" for k
  proof -
    have "unmark (objs st ! k) = unmark (ns ! k)"
      using g that l by (metis graph_of_nth nth_map)
    then have "(objs st ! k)\<lparr>mark := PERMANENT_MARK\<rparr> = (ns ! k)\<lparr>mark := PERMANENT_MARK\<rparr>"
      by (rule unmark_eq_mark)
    moreover have "mark (objs st ! k) = PERMANENT_MARK"
      using P that by (auto simp: marked_def)
    ultimately show ?thesis by (metis snode.surjective snode.update_convs(4))
  qed
  have 1: "objs' = map (\<lambda>x. x\<lparr>mark := PERMANENT_MARK\<rparr>) ns"
    unfolding o using l nth by (intro nth_equalityI) auto
  have "mset (result st) = mset [0..<length ns]"
    using sr dr by (metis atLeast_upt distinct_upt set_eq_iff_mset_eq_distinct)
  then have "mset res = mset (map (\<lambda>i. objs st ! i) [0..<length ns])"
    unfolding rs by (metis mset_map)
  then have 2: "mset res = mset objs'"
    unfolding o using l by (metis map_nth)
  have 3: "topological res"
    unfolding topological_def
  proof (intro allI impI)
    fix p q assume p: "p < length res" and q: "q < length res"
      and d: "depends_on (res ! q) (res ! p)"
    have pl: "p < length (result st)" and ql: "q < length (result st)" using p q rs by auto
    have rp: "result st ! p < length ns" and rq: "result st ! q < length ns"
      using sr pl ql by (metis lessThan_iff nth_mem)+
    have "depends_on (graph_of st ! (result st ! q)) (graph_of st ! (result st ! p))"
      using d pl ql rp rq l by (simp add: rs graph_of_nth)
    then show "p < q"
      using ordered_positions[OF orr dr pl ql] rq l by simp
  qed
  have "acyclic (set (dep_edges (graph_of st)))"
    using ordered_acyclic[OF dr _ orr] sr l by simp
  then have 4: "acyclic (set (dep_edges ns))"
    using dep_edges_graph_of[of "?st0"] g by (simp add: graph_of_def)
  show ?thesis using 1 2 3 4 by simp
qed

lemma sortByDepends_Inl:
  assumes f: "\<forall>x\<in>set ns. mark x \<noteq> TEMPORARY_MARK" and r: "sortByDepends ns = Inl e"
  shows "\<not> acyclic (set (dep_edges ns)) \<and> (\<exists>c<length ns. e = CycleError (id' (ns ! c)))"
proof -
  let ?st0 = "\<lparr>objs = ns, result = []\<rparr>"
  from r have fe: "forEach_unmarked [0..<length ns] ?st0 = Inl e"
    by (auto simp: sortByDepends_def split: sum.splits)
  have T0: "marked TEMPORARY_MARK ?st0 = {}"
    using f by (auto simp: marked_init)
  have sub: "set [0..<length ns] \<subseteq> {..<length (objs ?st0)}" by auto
  from forEach_unmarked_error[OF fe sub T0] obtain c where
    c: "c < length ns" "(c, c) \<in> (set (dep_edges (graph_of ?st0)))\<^sup>+" "e = CycleError (id' (ns ! c))"
    by auto
  have "(c, c) \<in> (set (dep_edges ns))\<^sup>+"
    using c(2) dep_edges_graph_of[of ?st0] by simp
  then have "\<not> acyclic (set (dep_edges ns))" by (auto simp: acyclic_def)
  then show ?thesis using c by auto
qed

lemma sortByDepends_cases:
  obtains (err) e where "sortByDepends ns = Inl e"
  | (ok) objs' res where "sortByDepends ns = Inr (objs', res)"
  by (cases "sortByDepends ns") auto

section \<open>Nodes without dependencies\<close>

lemma visit_forEach_independent:
  "\<forall>j\<in>set js. \<not> depends_on (objs st ! j) (objs st ! i) \<Longrightarrow> visit_forEach i js st = Inr st"
  by (induction js) auto

lemma visit_independent:
  assumes i: "i < length (objs st)" and u: "mark (objs st ! i) = Unmarked"
    and d: "set (dep_edges (graph_of st)) = {}"
  shows "visit i st = Inr (unshift i (set_mark i PERMANENT_MARK (set_mark i TEMPORARY_MARK st)))"
proof -
  let ?st1 = "set_mark i TEMPORARY_MARK st"
  have "\<not> depends_on (objs ?st1 ! j) (objs ?st1 ! i)" if "j < length (objs st)" for j
  proof -
    have "(i, j) \<notin> set (dep_edges (objs st))" using d by (simp add: dep_edges_graph_of)
    then have "\<not> depends_on (objs st ! j) (objs st ! i)"
      using that i by (simp add: set_dep_edges)
    then show ?thesis using that i by (simp add: depends_on_set_mark)
  qed
  then have "visit_forEach i [0..<length (objs st)] ?st1 = Inr ?st1"
    by (intro visit_forEach_independent) simp
  then show ?thesis using i u by (simp add: visit.simps)
qed

lemma forEach_unmarked_independent:
  "set is \<subseteq> {..<length (objs st)} \<Longrightarrow> distinct is \<Longrightarrow>
   \<forall>i\<in>set is. mark (objs st ! i) = Unmarked \<Longrightarrow> set (dep_edges (graph_of st)) = {} \<Longrightarrow>
   \<exists>st'. forEach_unmarked is st = Inr st' \<and> result st' = rev is @ result st"
proof (induction "is" arbitrary: st)
  case Nil
  then show ?case by simp
next
  case (Cons i "is")
  let ?st2 = "unshift i (set_mark i PERMANENT_MARK (set_mark i TEMPORARY_MARK st))"
  have il: "i < length (objs st)" and u: "mark (objs st ! i) = Unmarked"
    using Cons.prems(1,3) by auto
  have v: "visit i st = Inr ?st2" using visit_independent[OF il u Cons.prems(4)] .
  have a: "set is \<subseteq> {..<length (objs ?st2)}" using Cons.prems(1) by simp
  have b: "distinct is" using Cons.prems(2) by simp
  have c: "\<forall>k\<in>set is. mark (objs ?st2 ! k) = Unmarked"
  proof
    fix k assume k: "k \<in> set is"
    then have "k \<noteq> i" "k < length (objs st)" using Cons.prems(1,2) by auto
    then show "mark (objs ?st2 ! k) = Unmarked"
      using Cons.prems(3) k by (simp add: mark_set_mark)
  qed
  have d: "set (dep_edges (graph_of ?st2)) = {}" using Cons.prems(4) by simp
  from Cons.IH[OF a b c d] obtain st' where
    "forEach_unmarked is ?st2 = Inr st'" "result st' = rev is @ result ?st2" by auto
  then show ?case using v u by simp
qed

section \<open>The swap loops\<close>

lemma nth_opt_nat [simp]: "k < length arr \<Longrightarrow> nth_opt arr (int k) = Some (arr ! k)"
  by (simp add: nth_opt_def)

lemma swap_step_down:
  assumes l: "Suc q < length a"
  shows "swap_step (-1) to cmp (nth_opt a (int (Suc q))) (int (Suc q)) a =
     (if \<not> cmp (a ! Suc q) (a ! q) then Inr (Some (int (Suc q)), a)
      else if int q = to then Inr (Some (int q), a[q := a ! Suc q, Suc q := a ! q])
      else Inr (None, a[q := a ! Suc q, Suc q := a ! q]))"
proof -
  have n: "int (Suc q) + (- 1) = int q" by simp
  have r1: "nth_opt a (int (Suc q)) = Some (a ! Suc q)" using l by (rule nth_opt_nat)
  have r2: "nth_opt a (int q) = Some (a ! q)" using l by (intro nth_opt_nat) simp
  show ?thesis unfolding swap_step_def Let_def n r1 r2 by (auto simp del: of_nat_Suc)
qed

lemma swap_step_up:
  assumes l: "Suc q < length a"
  shows "swap_step 1 to cmp (nth_opt a (int q)) (int q) a =
     (if \<not> cmp (a ! q) (a ! Suc q) then Inr (Some (int q), a)
      else if int (Suc q) = to then Inr (Some (int (Suc q)), a[Suc q := a ! q, q := a ! Suc q])
      else Inr (None, a[Suc q := a ! q, q := a ! Suc q]))"
proof -
  have n: "int q + 1 = int (Suc q)" by simp
  have r1: "nth_opt a (int (Suc q)) = Some (a ! Suc q)" using l by (rule nth_opt_nat)
  have r2: "nth_opt a (int q) = Some (a ! q)" using l by (intro nth_opt_nat) simp
  show ?thesis unfolding swap_step_def Let_def n r1 r2 by (auto simp del: of_nat_Suc)
qed

lemma for_loop_swap_down:
  "t < p \<Longrightarrow> p < length arr \<Longrightarrow> I arr p \<Longrightarrow>
   (\<And>a q. t < q \<Longrightarrow> q \<le> p \<Longrightarrow> length a = length arr \<Longrightarrow> I a q \<Longrightarrow> cmp (a ! q) (a ! (q - 1)) \<Longrightarrow>
      I (a[q - 1 := a ! q, q := a ! (q - 1)]) (q - 1)) \<Longrightarrow>
   \<exists>p' arr'. for_loop (swap_step (-1) (int t) cmp) (rev [int t + 1..int p]) arr d
        = Inr (Some (int p'), arr')
      \<and> t \<le> p' \<and> p' \<le> p \<and> length arr' = length arr \<and> I arr' p'"
proof (induction p arbitrary: arr)
  case 0
  then show ?case by simp
next
  case (Suc p)
  have idx: "rev [int t + 1..int (Suc p)] = int (Suc p) # rev [int t + 1..int p]"
    using Suc.prems(1) by (simp add: upto_rec2)
  have pl: "p < length arr" using Suc.prems(2) by simp
  show ?case
  proof (cases "cmp (arr ! Suc p) (arr ! p)")
    case False
    have "for_loop (swap_step (-1) (int t) cmp) (rev [int t + 1..int (Suc p)]) arr d
        = Inr (Some (int (Suc p)), arr)"
      unfolding idx for_loop.simps swap_step_down[OF Suc.prems(2)] using False by simp
    then show ?thesis using Suc.prems(1,3) by (intro exI[of _ "Suc p"] exI[of _ arr]) simp
  next
    case True
    let ?arr' = "arr[p := arr ! Suc p, Suc p := arr ! p]"
    have I': "I ?arr' p"
      using Suc.prems(4)[of "Suc p" arr] Suc.prems(1,3) True by simp
    have one: "swap_step (-1) (int t) cmp (nth_opt arr (int (Suc p))) (int (Suc p)) arr
        = (if p = t then Inr (Some (int p), ?arr') else Inr (None, ?arr'))"
      unfolding swap_step_down[OF Suc.prems(2)] using True by simp
    show ?thesis
    proof (cases "p = t")
      case True
      have "for_loop (swap_step (-1) (int t) cmp) (rev [int t + 1..int (Suc p)]) arr d
        = Inr (Some (int p), ?arr')"
        unfolding idx for_loop.simps one using True by simp
      then show ?thesis using I' True by auto
    next
      case False
      then have tp: "t < p" using Suc.prems(1) by simp
      have eq: "for_loop (swap_step (-1) (int t) cmp) (rev [int t + 1..int (Suc p)]) arr d
        = for_loop (swap_step (-1) (int t) cmp) (rev [int t + 1..int p]) ?arr' d"
        unfolding idx for_loop.simps one using False by simp
      have pl': "p < length ?arr'" using pl by simp
      have "\<exists>p' arr'. for_loop (swap_step (-1) (int t) cmp) (rev [int t + 1..int p]) ?arr' d
          = Inr (Some (int p'), arr')
        \<and> t \<le> p' \<and> p' \<le> p \<and> length arr' = length ?arr' \<and> I arr' p'"
      proof (rule Suc.IH[OF tp pl' I'])
        fix a q assume "t < q" "q \<le> p" "length a = length ?arr'" "I a q" "cmp (a ! q) (a ! (q - 1))"
        then show "I (a[q - 1 := a ! q, q := a ! (q - 1)]) (q - 1)"
          using Suc.prems(4)[of q a] by simp
      qed
      then show ?thesis unfolding eq by auto
    qed
  qed
qed

lemma for_loop_swap_up:
  "p < t \<Longrightarrow> t < length arr \<Longrightarrow> I arr p \<Longrightarrow>
   (\<And>a q. p \<le> q \<Longrightarrow> q < t \<Longrightarrow> length a = length arr \<Longrightarrow> I a q \<Longrightarrow> cmp (a ! q) (a ! (q + 1)) \<Longrightarrow>
      I (a[q + 1 := a ! q, q := a ! (q + 1)]) (q + 1)) \<Longrightarrow>
   \<exists>p' arr'. for_loop (swap_step 1 (int t) cmp) [int p..int t - 1] arr d
        = Inr (Some (int p'), arr')
      \<and> p \<le> p' \<and> p' \<le> t \<and> length arr' = length arr \<and> I arr' p'"
proof (induction "t - p" arbitrary: p arr)
  case 0
  then show ?case by simp
next
  case (Suc k)
  have idx: "[int p..int t - 1] = int p # [int p + 1..int t - 1]"
    using Suc.prems(1) by (simp add: upto_rec1)
  have pl: "p < length arr" "Suc p < length arr" using Suc.prems(1,2) by simp_all
  show ?case
  proof (cases "cmp (arr ! p) (arr ! Suc p)")
    case False
    have "for_loop (swap_step 1 (int t) cmp) [int p..int t - 1] arr d = Inr (Some (int p), arr)"
      unfolding idx for_loop.simps swap_step_up[OF pl(2)] using False by simp
    then show ?thesis using Suc.prems(1,3) by (intro exI[of _ p] exI[of _ arr]) simp
  next
    case True
    let ?arr' = "arr[Suc p := arr ! p, p := arr ! Suc p]"
    have I': "I ?arr' (Suc p)"
      using Suc.prems(4)[of p arr] Suc.prems(1,3) True by simp
    have one: "swap_step 1 (int t) cmp (nth_opt arr (int p)) (int p) arr
        = (if Suc p = t then Inr (Some (int (Suc p)), ?arr') else Inr (None, ?arr'))"
      unfolding swap_step_up[OF pl(2)] using True by simp
    show ?thesis
    proof (cases "Suc p = t")
      case True
      have "for_loop (swap_step 1 (int t) cmp) [int p..int t - 1] arr d
        = Inr (Some (int (Suc p)), ?arr')"
        unfolding idx for_loop.simps one using True by simp
      then show ?thesis using I' True by (intro exI[of _ "Suc p"] exI[of _ ?arr']) simp
    next
      case False
      then have tp: "Suc p < t" using Suc.prems(1) by simp
      have eq: "for_loop (swap_step 1 (int t) cmp) [int p..int t - 1] arr d
        = for_loop (swap_step 1 (int t) cmp) [int (Suc p)..int t - 1] ?arr' d"
        unfolding idx for_loop.simps one using False by (simp add: add.commute)
      have k: "k = t - Suc p" using Suc.hyps(2) by simp
      have tl: "t < length ?arr'" using Suc.prems(2) by simp
      have "\<exists>p' arr'. for_loop (swap_step 1 (int t) cmp) [int (Suc p)..int t - 1] ?arr' d
          = Inr (Some (int p'), arr')
        \<and> Suc p \<le> p' \<and> p' \<le> t \<and> length arr' = length ?arr' \<and> I arr' p'"
      proof (rule Suc.hyps(1)[OF k tp tl I'])
        fix a q assume "Suc p \<le> q" "q < t" "length a = length ?arr'" "I a q" "cmp (a ! q) (a ! (q + 1))"
        then show "I (a[q + 1 := a ! q, q := a ! (q + 1)]) (q + 1)"
          using Suc.prems(4)[of q a] by simp
      qed
      then show ?thesis unfolding eq by auto
    qed
  qed
qed

lemma swapInRange_down:
  "t < p \<Longrightarrow> swapInRange arr (int p) (int t) cmp
     = for_loop (swap_step (-1) (int t) cmp) (rev [int t + 1..int p]) arr (Some (int p))"
  by (simp add: swapInRange_def runInRange_def range_indices_def)

lemma swapInRange_up:
  "p < t \<Longrightarrow> swapInRange arr (int p) (int t) cmp
     = for_loop (swap_step 1 (int t) cmp) [int p..int t - 1] arr (Some (int p))"
  by (simp add: swapInRange_def runInRange_def range_indices_def)

lemma swapInRange_same: "swapInRange arr p p cmp = Inr (None, arr)"
  by (simp add: swapInRange_def)

lemma for_loop_inv:
  "I arr \<Longrightarrow>
   (\<And>i a. i \<in> set is \<Longrightarrow> I a \<Longrightarrow> \<exists>a'. fn (nth_opt a i) i a = Inr (None, a') \<and> I a') \<Longrightarrow>
   \<exists>arr'. for_loop fn is arr d = Inr (d, arr') \<and> I arr'"
proof (induction "is" arbitrary: arr)
  case Nil
  then show ?case by simp
next
  case (Cons i "is")
  from Cons.prems(2)[of i arr] Cons.prems(1) obtain a' where
    a': "fn (nth_opt arr i) i arr = Inr (None, a')" "I a'" by auto
  have "\<exists>arr'. for_loop fn is a' d = Inr (d, arr') \<and> I arr'"
    using Cons.IH[OF a'(2)] Cons.prems(2) by simp
  then show ?case using a'(1) by simp
qed

section \<open>Sorting by weight keeps dependency order\<close>

lemma topologicalD:
  "topological a \<Longrightarrow> p < length a \<Longrightarrow> q < length a \<Longrightarrow> depends_on (a ! q) (a ! p) \<Longrightarrow> p < q"
  by (simp add: topological_def)

lemma topological_swap:
  assumes t: "topological a" and l: "Suc q < length a" and d: "\<not> depends_on (a ! Suc q) (a ! q)"
  shows "topological (a[q := a ! Suc q, Suc q := a ! q])"
  unfolding topological_def
proof (intro allI impI)
  let ?a' = "a[q := a ! Suc q, Suc q := a ! q]"
  fix x y assume x: "x < length ?a'" and y: "y < length ?a'" and dep: "depends_on (?a' ! y) (?a' ! x)"
  define f where "f k = (if k = q then Suc q else if k = Suc q then q else k)" for k
  have nth: "?a' ! k = a ! f k" if "k < length a" for k
    using that l by (auto simp: f_def nth_list_update)
  have fl: "f k < length a" if "k < length a" for k using that l by (auto simp: f_def)
  have "depends_on (a ! f y) (a ! f x)" using dep x y nth by simp
  then have lt: "f x < f y" using t fl x y by (auto simp: topological_def)
  have "\<not> (x = Suc q \<and> y = q)"
  proof
    assume "x = Suc q \<and> y = q"
    then have "f x = q" "f y = Suc q" by (auto simp: f_def)
    with \<open>depends_on (a ! f y) (a ! f x)\<close> d show False by simp
  qed
  then show "x < y" using lt by (auto simp: f_def split: if_splits)
qed

lemma floats_down_init:
  assumes "topological arr" "i < length arr"
  shows "floats_down arr i arr i"
  unfolding floats_down_def
proof (intro conjI allI impI)
  fix k assume k: "k \<le> i" "k \<noteq> i"
  show "\<not> depends_on (arr ! k) (arr ! i)"
  proof
    assume "depends_on (arr ! k) (arr ! i)"
    then have "i < k" using topologicalD[OF assms(1), of i k] assms(2) k by simp
    then show False using k by simp
  qed
qed (use assms in simp_all)

lemma floats_up_init:
  assumes "topological arr" "i < length arr"
  shows "floats_up arr i arr i"
  unfolding floats_up_def
proof (intro conjI allI impI)
  fix k assume k: "i \<le> k \<and> k < length arr \<and> k \<noteq> i"
  show "\<not> depends_on (arr ! i) (arr ! k)"
  proof
    assume "depends_on (arr ! i) (arr ! k)"
    then have "k < i" using topologicalD[OF assms(1), of k i] assms(2) k by simp
    then show False using k by simp
  qed
qed (use assms in simp_all)

lemma floats_down_step_down:
  assumes J: "floats_down arr i a q" and q: "0 < q" "q \<le> i" "i < length a"
    and c: "\<not> depends_on (a ! q) (a ! (q - 1))"
  shows "floats_down arr i (a[q - 1 := a ! q, q := a ! (q - 1)]) (q - 1)"
proof -
  obtain r where r: "q = Suc r" using q(1) by (cases q) auto
  have l: "Suc r < length a" using q r by simp
  have m: "mset (a[r := a ! Suc r, Suc r := a ! r]) = mset a"
    using mset_swap[of r a "Suc r"] l by (simp add: list_update_swap)
  have t: "topological (a[r := a ! Suc r, Suc r := a ! r])"
    using topological_swap[OF _ l] J c r by (simp add: floats_down_def)
  have "\<not> depends_on ((a[r := a ! Suc r, Suc r := a ! r]) ! k) ((a[r := a ! Suc r, Suc r := a ! r]) ! r)"
    if "k \<le> i" "k \<noteq> r" for k
  proof -
    have kl: "k < length a" using that q by simp
    have pos: "(a[r := a ! Suc r, Suc r := a ! r]) ! r = a ! Suc r" using l by simp
    show ?thesis
    proof (cases "k = Suc r")
      case True
      have "\<not> depends_on (a ! r) (a ! Suc r)" using J r q by (simp add: floats_down_def)
      then show ?thesis using True l pos by simp
    next
      case False
      then have "(a[r := a ! Suc r, Suc r := a ! r]) ! k = a ! k" using that by simp
      moreover have "\<not> depends_on (a ! k) (a ! Suc r)"
        using J r that False by (simp add: floats_down_def)
      ultimately show ?thesis using pos by simp
    qed
  qed
  then show ?thesis using m t J r by (simp add: floats_down_def)
qed

lemma floats_down_step_up:
  assumes J: "floats_down arr i a q" and q: "q < i" "i < length a"
  shows "floats_down arr i (a[q + 1 := a ! q, q := a ! (q + 1)]) (q + 1)"
proof -
  have l: "Suc q < length a" using q by simp
  have c: "\<not> depends_on (a ! Suc q) (a ! q)" using J q by (simp add: floats_down_def)
  have e: "a[Suc q := a ! q, q := a ! Suc q] = a[q := a ! Suc q, Suc q := a ! q]"
    by (simp add: list_update_swap)
  have m: "mset (a[q := a ! Suc q, Suc q := a ! q]) = mset a"
    using mset_swap[of q a "Suc q"] l by (simp add: list_update_swap)
  have t: "topological (a[q := a ! Suc q, Suc q := a ! q])"
    using topological_swap[OF _ l c] J by (simp add: floats_down_def)
  have "\<not> depends_on ((a[q := a ! Suc q, Suc q := a ! q]) ! k) ((a[q := a ! Suc q, Suc q := a ! q]) ! Suc q)"
    if "k \<le> i" "k \<noteq> Suc q" for k
  proof -
    have pos: "(a[q := a ! Suc q, Suc q := a ! q]) ! Suc q = a ! q" using l by simp
    show ?thesis
    proof (cases "k = q")
      case True
      then show ?thesis using l pos c by simp
    next
      case False
      then have "(a[q := a ! Suc q, Suc q := a ! q]) ! k = a ! k" using that by simp
      moreover have "\<not> depends_on (a ! k) (a ! q)"
        using J that False by (simp add: floats_down_def)
      ultimately show ?thesis using pos by simp
    qed
  qed
  then show ?thesis using m t J unfolding e[symmetric] Suc_eq_plus1[symmetric]
    by (simp add: floats_down_def e)
qed

lemma floats_up_step_up:
  assumes J: "floats_up arr i a q" and q: "i \<le> q" "Suc q < length a"
    and c: "\<not> depends_on (a ! (q + 1)) (a ! q)"
  shows "floats_up arr i (a[q + 1 := a ! q, q := a ! (q + 1)]) (q + 1)"
proof -
  have l: "Suc q < length a" using q by simp
  have e: "a[Suc q := a ! q, q := a ! Suc q] = a[q := a ! Suc q, Suc q := a ! q]"
    by (simp add: list_update_swap)
  have m: "mset (a[q := a ! Suc q, Suc q := a ! q]) = mset a"
    using mset_swap[of q a "Suc q"] l by (simp add: list_update_swap)
  have t: "topological (a[q := a ! Suc q, Suc q := a ! q])"
    using topological_swap[OF _ l] c J by (simp add: floats_up_def)
  have "\<not> depends_on ((a[q := a ! Suc q, Suc q := a ! q]) ! Suc q) ((a[q := a ! Suc q, Suc q := a ! q]) ! k)"
    if "i \<le> k" "k < length a" "k \<noteq> Suc q" for k
  proof -
    have pos: "(a[q := a ! Suc q, Suc q := a ! q]) ! Suc q = a ! q" using l by simp
    show ?thesis
    proof (cases "k = q")
      case True
      have "\<not> depends_on (a ! q) (a ! Suc q)" using J q by (simp add: floats_up_def)
      then show ?thesis using True l pos by simp
    next
      case False
      then have "(a[q := a ! Suc q, Suc q := a ! q]) ! k = a ! k" using that by simp
      moreover have "\<not> depends_on (a ! q) (a ! k)"
        using J that False by (simp add: floats_up_def)
      ultimately show ?thesis using pos by simp
    qed
  qed
  then show ?thesis using m t J by (simp add: floats_up_def e)
qed

lemma floats_up_step_down:
  assumes J: "floats_up arr i a q" and q: "i < q" "q < length a"
  shows "floats_up arr i (a[q - 1 := a ! q, q := a ! (q - 1)]) (q - 1)"
proof -
  obtain r where r: "q = Suc r" using q(1) by (cases q) auto
  have l: "Suc r < length a" using q r by simp
  have ir: "i \<le> r" using q r by simp
  have c: "\<not> depends_on (a ! Suc r) (a ! r)" using J r q ir by (simp add: floats_up_def)
  have m: "mset (a[r := a ! Suc r, Suc r := a ! r]) = mset a"
    using mset_swap[of r a "Suc r"] l by (simp add: list_update_swap)
  have t: "topological (a[r := a ! Suc r, Suc r := a ! r])"
    using topological_swap[OF _ l c] J by (simp add: floats_up_def)
  have "\<not> depends_on ((a[r := a ! Suc r, Suc r := a ! r]) ! r) ((a[r := a ! Suc r, Suc r := a ! r]) ! k)"
    if "i \<le> k" "k < length a" "k \<noteq> r" for k
  proof -
    have pos: "(a[r := a ! Suc r, Suc r := a ! r]) ! r = a ! Suc r" using l by simp
    show ?thesis
    proof (cases "k = Suc r")
      case True
      then show ?thesis using l pos c by simp
    next
      case False
      then have "(a[r := a ! Suc r, Suc r := a ! r]) ! k = a ! k" using that by simp
      moreover have "\<not> depends_on (a ! Suc r) (a ! k)"
        using J r that False by (simp add: floats_up_def)
      ultimately show ?thesis using pos by simp
    qed
  qed
  then show ?thesis using m t J r by (simp add: floats_up_def)
qed

lemma indexOf_depends_on: "(indexOf (depends a) (id' b) = -1) = (\<not> depends_on a b)"
  by (simp add: depends_on_def)

lemma apply_negative_topological:
  assumes i: "0 < i" "i < length arr" and t: "topological arr"
  shows "\<exists>arr'. apply_negative (nth_opt arr (int i)) (int i) arr = Inr (None, arr')
     \<and> length arr' = length arr \<and> mset arr' = mset arr \<and> topological arr'"
proof (cases "num_lt (weight (arr ! i)) (Fin 0)")
  case False
  then show ?thesis using i t by (simp add: apply_negative_def)
next
  case True
  let ?c1 = "\<lambda>a b. indexOf (depends a) (id' b) = -1"
  let ?c2 = "\<lambda>a b. num_lt (weight b) (weight a)"
  have J0: "floats_down arr i arr i"
    using t i by (simp add: floats_down_init)
  have "\<exists>p' arr1. for_loop (swap_step (-1) (int 0) ?c1) (rev [int 0 + 1..int i]) arr (Some (int i))
        = Inr (Some (int p'), arr1)
      \<and> 0 \<le> p' \<and> p' \<le> i \<and> length arr1 = length arr \<and> floats_down arr i arr1 p'"
  proof (rule for_loop_swap_down[where I = "floats_down arr i"])
    show "0 < i" "i < length arr" "floats_down arr i arr i" using i J0 by simp_all
  next
    fix a q assume "0 < q" "q \<le> i" "length a = length arr" "floats_down arr i a q"
      "indexOf (depends (a ! q)) (id' (a ! (q - 1))) = - 1"
    then show "floats_down arr i (a[q - 1 := a ! q, q := a ! (q - 1)]) (q - 1)"
      using floats_down_step_down[of arr i a q] i by (simp add: indexOf_depends_on)
  qed
  then obtain p' arr1 where
    s1: "swapInRange arr (int i) 0 ?c1 = Inr (Some (int p'), arr1)"
    and p': "p' \<le> i" and l1: "length arr1 = length arr" and J1: "floats_down arr i arr1 p'"
    using swapInRange_down[OF i(1), of arr ?c1] by auto
  show ?thesis
  proof (cases "p' = i")
    case True
    have "apply_negative (nth_opt arr (int i)) (int i) arr = Inr (None, arr1)"
      using i \<open>num_lt (weight (arr ! i)) (Fin 0)\<close> s1 True
      by (simp add: apply_negative_def swapInRange_same)
    then show ?thesis using l1 J1 by (simp add: floats_down_def)
  next
    case False
    then have lt: "p' < i" using p' by simp
    have il1: "i < length arr1" using i l1 by simp
    have "\<exists>p'' arr2. for_loop (swap_step 1 (int i) ?c2) [int p'..int i - 1] arr1 (Some (int p'))
        = Inr (Some (int p''), arr2)
      \<and> p' \<le> p'' \<and> p'' \<le> i \<and> length arr2 = length arr1 \<and> floats_down arr i arr2 p''"
    proof (rule for_loop_swap_up[where I = "floats_down arr i"])
      show "p' < i" "i < length arr1" "floats_down arr i arr1 p'" using lt il1 J1 by simp_all
    next
      fix a q assume "p' \<le> q" "q < i" "length a = length arr1" "floats_down arr i a q"
      then show "floats_down arr i (a[q + 1 := a ! q, q := a ! (q + 1)]) (q + 1)"
        using floats_down_step_up[of arr i a q] il1 by simp
    qed
    then obtain p'' arr2 where
      s2: "swapInRange arr1 (int p') (int i) ?c2 = Inr (Some (int p''), arr2)"
      and l2: "length arr2 = length arr1" and J2: "floats_down arr i arr2 p''"
      using swapInRange_up[OF lt, of arr1 ?c2] by auto
    have "apply_negative (nth_opt arr (int i)) (int i) arr = Inr (None, arr2)"
      using i \<open>num_lt (weight (arr ! i)) (Fin 0)\<close> s1 s2
      by (simp add: apply_negative_def)
    then show ?thesis using l1 l2 J2 by (simp add: floats_down_def)
  qed
qed

lemma apply_positive_topological:
  assumes i: "Suc i < length arr" and t: "topological arr"
  shows "\<exists>arr'. apply_positive (nth_opt arr (int i)) (int i) arr = Inr (None, arr')
     \<and> length arr' = length arr \<and> mset arr' = mset arr \<and> topological arr'"
proof (cases "num_lt (Fin 0) (weight (arr ! i))")
  case False
  then show ?thesis using i t by (simp add: apply_positive_def)
next
  case True
  let ?c1 = "\<lambda>a b. indexOf (depends b) (id' a) = -1"
  let ?c2 = "\<lambda>a b. num_lt (weight a) (weight b)"
  let ?n = "length arr - 1"
  have n: "int (length arr) - 1 = int ?n" "i < ?n" "?n < length arr" using i by auto
  have J0: "floats_up arr i arr i"
    using t i by (simp add: floats_up_init)
  have "\<exists>p' arr1. for_loop (swap_step 1 (int ?n) ?c1) [int i..int ?n - 1] arr (Some (int i))
        = Inr (Some (int p'), arr1)
      \<and> i \<le> p' \<and> p' \<le> ?n \<and> length arr1 = length arr \<and> floats_up arr i arr1 p'"
  proof (rule for_loop_swap_up[where I = "floats_up arr i"])
    show "i < ?n" "?n < length arr" "floats_up arr i arr i" using n J0 by simp_all
  next
    fix a q assume "i \<le> q" "q < ?n" "length a = length arr" "floats_up arr i a q"
      "indexOf (depends (a ! (q + 1))) (id' (a ! q)) = - 1"
    then show "floats_up arr i (a[q + 1 := a ! q, q := a ! (q + 1)]) (q + 1)"
      using floats_up_step_up[of arr i a q] by (simp add: indexOf_depends_on)
  qed
  then obtain p' arr1 where
    s1: "swapInRange arr (int i) (int (length arr) - 1) ?c1 = Inr (Some (int p'), arr1)"
    and p': "i \<le> p'" "p' \<le> ?n" and l1: "length arr1 = length arr" and J1: "floats_up arr i arr1 p'"
    using swapInRange_up[OF n(2), of arr ?c1] unfolding n(1) by auto
  show ?thesis
  proof (cases "p' = i")
    case True
    have "apply_positive (nth_opt arr (int i)) (int i) arr = Inr (None, arr1)"
      using i \<open>num_lt (Fin 0) (weight (arr ! i))\<close> s1 True
      by (simp add: apply_positive_def swapInRange_same)
    then show ?thesis using l1 J1 by (simp add: floats_up_def)
  next
    case False
    then have lt: "i < p'" using p' by simp
    have pl1: "p' < length arr1" using p' n l1 by simp
    have "\<exists>p'' arr2. for_loop (swap_step (-1) (int i) ?c2) (rev [int i + 1..int p']) arr1 (Some (int p'))
        = Inr (Some (int p''), arr2)
      \<and> i \<le> p'' \<and> p'' \<le> p' \<and> length arr2 = length arr1 \<and> floats_up arr i arr2 p''"
    proof (rule for_loop_swap_down[where I = "floats_up arr i"])
      show "i < p'" "p' < length arr1" "floats_up arr i arr1 p'" using lt pl1 J1 by simp_all
    next
      fix a q assume "i < q" "q \<le> p'" "length a = length arr1" "floats_up arr i a q"
      then show "floats_up arr i (a[q - 1 := a ! q, q := a ! (q - 1)]) (q - 1)"
        using floats_up_step_down[of arr i a q] pl1 by simp
    qed
    then obtain p'' arr2 where
      s2: "swapInRange arr1 (int p') (int i) ?c2 = Inr (Some (int p''), arr2)"
      and l2: "length arr2 = length arr1" and J2: "floats_up arr i arr2 p''"
      using swapInRange_down[OF lt, of arr1 ?c2] by auto
    have "apply_positive (nth_opt arr (int i)) (int i) arr = Inr (None, arr2)"
      using i \<open>num_lt (Fin 0) (weight (arr ! i))\<close> s1 s2
      by (simp add: apply_positive_def)
    then show ?thesis using l1 l2 J2 by (simp add: floats_up_def)
  qed
qed

lemma sortByWeight_topological:
  assumes n: "2 \<le> length arr" and t: "topological arr"
  shows "\<exists>arr'. sortByWeight arr = Inr arr' \<and> mset arr' = mset arr \<and> topological arr'"
proof -
  let ?I = "\<lambda>a. length a = length arr \<and> mset a = mset arr \<and> topological a"
  have "\<exists>r1. for_loop apply_negative [1..int (length arr) - 1] arr None = Inr (None, r1) \<and> ?I r1"
  proof (rule for_loop_inv[where I = ?I])
    show "?I arr" using t by simp
  next
    fix i a assume i: "i \<in> set [1..int (length arr) - 1]" and I: "?I a"
    then obtain k where k: "i = int k" "0 < k" "k < length a"
      by (auto intro: that[of "nat i"])
    show "\<exists>a'. apply_negative (nth_opt a i) i a = Inr (None, a') \<and> ?I a'"
      using apply_negative_topological[OF k(2,3)] I k(1) by auto
  qed
  then obtain r1 where
    r1: "runInRange arr 1 (int (length arr)) apply_negative None = Inr (None, r1)" and I1: "?I r1"
    using n by (auto simp: runInRange_def range_indices_def)
  have "\<exists>r2. runInRange r1 (int (length r1) - 2) 0 apply_positive None = Inr (None, r2) \<and> ?I r2"
  proof (cases "length arr = 2")
    case True
    then show ?thesis using I1 by (simp add: runInRange_def)
  next
    case False
    have "\<exists>r2. for_loop apply_positive (rev [1..int (length arr) - 2]) r1 None = Inr (None, r2) \<and> ?I r2"
    proof (rule for_loop_inv[where I = ?I])
      show "?I r1" using I1 .
    next
      fix i a assume i: "i \<in> set (rev [1..int (length arr) - 2])" and I: "?I a"
      then obtain k where k: "i = int k" "Suc k < length a"
        by (auto intro: that[of "nat i"])
      show "\<exists>a'. apply_positive (nth_opt a i) i a = Inr (None, a') \<and> ?I a'"
        using apply_positive_topological[OF k(2)] I k(1) by auto
    qed
    then show ?thesis using False n I1 by (auto simp: runInRange_def range_indices_def)
  qed
  then obtain r2 where
    r2: "runInRange r1 (int (length r1) - 2) 0 apply_positive None = Inr (None, r2)" and I2: "?I r2"
    by auto
  show ?thesis using r1 r2 I2 by (simp add: sortByWeight_def)
qed

lemma sortByWeight_short: "length arr < 2 \<Longrightarrow> sortByWeight arr = Inl TypeError"
proof -
  assume "length arr < 2"
  then consider "arr = []" | x where "arr = [x]"
    by (cases arr; cases "tl arr") auto
  then show ?thesis
  proof cases
    case 1
    then show ?thesis
      by (simp add: sortByWeight_def runInRange_def range_indices_def nth_opt_def apply_negative_def)
  next
    case 2
    then show ?thesis
      by (simp add: sortByWeight_def runInRange_def range_indices_def nth_opt_def apply_positive_def)
  qed
qed

section \<open>Results of sort\<close>

lemma fresh_serialize: "fresh (map (serialize s) recs)"
  by (auto simp: fresh_def serialize_def Let_def)

lemma topological_unmark: "topological (map unmark ns) = topological ns"
  by (simp add: topological_def)

lemma serialize_node_mark:
  "serialize s (node ((serialize s r)\<lparr>mark := m\<rparr>)) = unmark ((serialize s r)\<lparr>mark := m\<rparr>)"
  by (simp add: serialize_def Let_def unmark_def)

lemma sort_js_acyclic:
  assumes a: "acyclic_input s recs" and n: "2 \<le> length recs"
  shows "\<exists>out. sort_js s recs = Inr out \<and> mset out = mset recs
    \<and> topological (map (serialize s) out)"
proof -
  let ?ns = "map (serialize s) recs"
  have f: "fresh ?ns" by (rule fresh_serialize)
  have noT: "\<forall>x\<in>set ?ns. mark x \<noteq> TEMPORARY_MARK" using f by (simp add: fresh_def)
  obtain objs' res where r: "sortByDepends ?ns = Inr (objs', res)"
  proof (cases ?ns rule: sortByDepends_cases)
    case (err e)
    then show ?thesis using sortByDepends_Inl[OF noT err] a by (simp add: acyclic_input_def)
  next
    case (ok objs' res)
    then show ?thesis using that by simp
  qed
  from sortByDepends_Inr[OF f r] have
    o: "objs' = map (\<lambda>x. x\<lparr>mark := PERMANENT_MARK\<rparr>) ?ns" and m: "mset res = mset objs'"
    and t: "topological res" by auto
  have "length res = length objs'" using m by (metis size_mset)
  then have l: "2 \<le> length res" using o n by simp
  from sortByWeight_topological[OF l t] obtain arr' where
    w: "sortByWeight res = Inr arr'" and m': "mset arr' = mset res" and t': "topological arr'"
    by auto
  have out: "sort_js s recs = Inr (map deserialize arr')"
    using r w by (simp add: sort_js_def)
  have "mset (map deserialize arr') = image_mset node (mset objs')"
    using m m' by (simp add: deserialize_def[abs_def])
  also have "\<dots> = mset (map node objs')" by simp
  also have "map node objs' = recs"
    unfolding o by (rule nth_equalityI) (simp_all add: serialize_def Let_def)
  finally have 1: "mset (map deserialize arr') = mset recs" .
  have "set arr' = set objs'" using m m' by (metis set_mset_mset)
  then have "\<forall>x\<in>set arr'. serialize s (node x) = unmark x"
    unfolding o using serialize_node_mark by auto
  then have eq: "map (serialize s) (map deserialize arr') = map unmark arr'"
    by (simp add: deserialize_def)
  have 2: "topological (map (serialize s) (map deserialize arr'))"
    unfolding eq using t' by (simp only: topological_unmark)
  show ?thesis using out 1 2 by blast
qed

lemma sort_js_cyclic_error:
  assumes "\<not> acyclic_input s recs"
  shows "\<exists>c<length recs. sort_js s recs = Inl (CycleError (id' (serialize s (recs ! c))))"
proof -
  let ?ns = "map (serialize s) recs"
  have f: "fresh ?ns" by (rule fresh_serialize)
  have noT: "\<forall>x\<in>set ?ns. mark x \<noteq> TEMPORARY_MARK" using f by (simp add: fresh_def)
  show ?thesis
  proof (cases ?ns rule: sortByDepends_cases)
    case (err e)
    from sortByDepends_Inl[OF noT err] obtain c where
      "c < length recs" "e = CycleError (id' (serialize s (recs ! c)))" by auto
    then show ?thesis using err by (auto simp: sort_js_def)
  next
    case (ok objs' res)
    from sortByDepends_Inr[OF f ok] assms show ?thesis by (simp add: acyclic_input_def)
  qed
qed

lemma sort_js_short_error:
  assumes a: "acyclic_input s recs" and n: "length recs < 2"
  shows "sort_js s recs = Inl TypeError"
proof -
  let ?ns = "map (serialize s) recs"
  have f: "fresh ?ns" by (rule fresh_serialize)
  have noT: "\<forall>x\<in>set ?ns. mark x \<noteq> TEMPORARY_MARK" using f by (simp add: fresh_def)
  show ?thesis
  proof (cases ?ns rule: sortByDepends_cases)
    case (err e)
    from sortByDepends_Inl[OF noT err] a show ?thesis by (simp add: acyclic_input_def)
  next
    case (ok objs' res)
    from sortByDepends_Inr[OF f ok] have "mset res = mset objs'"
      "objs' = map (\<lambda>x. x\<lparr>mark := PERMANENT_MARK\<rparr>) ?ns" by auto
    then have "length res = length recs" by (metis length_map size_mset)
    then have "sortByWeight res = Inl TypeError" using n by (simp add: sortByWeight_short)
    then show ?thesis using ok by (simp add: sort_js_def)
  qed
qed

lemma acyclic_ab: "acyclic_input defaultSorter [rec_b, rec_a]"
  unfolding acyclic_input_def by code_simp

lemma acyclic_x: "acyclic_input defaultSorter [rec_x]"
  unfolding acyclic_input_def by code_simp

lemma cyclic_c1_c2: "\<not> acyclic_input defaultSorter [rec_c1, rec_c2]"
  unfolding acyclic_input_def by code_simp

lemma topological_z_m_p: "topological [node_z, node_m, node_p]"
  by (auto simp: topological_def less_Suc_eq depends_on_def node_z_def node_m_def node_p_def)

section \<open>What sort leaves untouched on the heap\<close>

lemma extends_refl [simp]: "extends h h"
  by (simp add: extends_def)

lemma extends_trans: "extends h0 h1 \<Longrightarrow> extends h1 h2 \<Longrightarrow> extends h0 h2"
  by (auto simp: extends_def)

lemma new_array_extends: "new_array xs h = (a, h') \<Longrightarrow> extends h h' \<and> a = next_addr h \<and> arrays h' a = Some xs"
  by (auto simp: new_array_def extends_def)

lemma serialize_h_extends: "serialize_h s r h = (w, h') \<Longrightarrow> extends h h' \<and> w = next_addr h"
  by (auto simp: serialize_h_def extends_def)

lemma map_serialize_extends:
  "map_serialize s rs h = (ws, h') \<Longrightarrow> extends h h' \<and> (\<forall>w\<in>set ws. next_addr h \<le> w)"
proof (induction rs arbitrary: h ws)
  case Nil
  then show ?case by simp
next
  case (Cons r rs)
  from Cons.prems obtain w h1 ws' where
    s: "serialize_h s r h = (w, h1)" and m: "map_serialize s rs h1 = (ws', h')" and e: "ws = w # ws'"
    by (auto split: prod.splits)
  from serialize_h_extends[OF s] Cons.IH[OF m] have
    "extends h h1" "w = next_addr h" "extends h1 h'" "\<forall>x\<in>set ws'. next_addr h1 \<le> x" by auto
  then show ?case using e extends_trans[of h h1 h'] by (auto simp: extends_def)
qed

lemma sortByDepends_h_extends:
  assumes r: "sortByDepends_h a h = (r, h')" and e: "extends h0 h"
    and f: "\<forall>ws. arrays h a = Some ws \<longrightarrow> (\<forall>w\<in>set ws. next_addr h0 \<le> w)"
  shows "extends h0 h' \<and> (\<forall>a2. r = Inr a2 \<longrightarrow> next_addr h \<le> a2 \<and> arrays h' a2 \<noteq> None)"
proof (cases "arrays h a")
  case None
  with r e show ?thesis by (auto simp: sortByDepends_h_def)
next
  case (Some ws)
  let ?h1 = "h\<lparr>arrays := (arrays h)(next_addr h \<mapsto> []), next_addr := Suc (next_addr h)\<rparr>"
  have n: "new_array [] h = (next_addr h, ?h1)" by (simp add: new_array_def)
  have e1: "extends h0 ?h1"
    using new_array_extends[OF n] e extends_trans by blast
  have fw: "\<forall>w\<in>set ws. next_addr h0 \<le> w" using f Some by simp
  show ?thesis
  proof (cases "forEach_unmarked [0..<length ws] \<lparr>objs = map (wrapper_at ?h1) ws, result = []\<rparr>")
    case (Inl x)
    with r Some n e1 show ?thesis by (auto simp: sortByDepends_h_def)
  next
    case (Inr st)
    with r Some n have r': "r = Inr (next_addr h)"
      and h': "h' = ?h1\<lparr>wrappers := (wrappers ?h1)(ws [\<mapsto>] objs st),
                      arrays := (arrays ?h1)(next_addr h \<mapsto> map (\<lambda>i. ws ! i) (result st))\<rparr>"
      by (simp_all add: sortByDepends_h_def)
    have le: "next_addr h0 \<le> next_addr h" using e by (simp add: extends_def)
    have up: "((wrappers h)(ws [\<mapsto>] objs st)) b = wrappers h b" if "b < next_addr h0" for b
    proof -
      have "b \<notin> set ws" using fw that by auto
      then show ?thesis by (rule map_upds_apply_nontin)
    qed
    have "extends h0 h'"
      using e1 le up unfolding h' extends_def by auto
    then show ?thesis using r' h' by simp
  qed
qed

lemma sortByWeight_h_extends:
  assumes r: "sortByWeight_h a h = (r, h')" and e: "extends h0 h" and f: "next_addr h0 \<le> a"
  shows "extends h0 h' \<and> next_addr h' = next_addr h \<and> (\<forall>a2. r = Inr a2 \<longrightarrow> a2 = a)"
  using r e f
  by (auto simp: sortByWeight_h_def extends_def split: option.splits sum.splits prod.splits)

lemma map_deserialize_extends:
  assumes r: "map_deserialize a h = (r, h')"
  shows "extends h h' \<and> (\<forall>a2. r = Inr a2 \<longrightarrow> next_addr h \<le> a2 \<and> arrays h' a2 \<noteq> None)"
  using r new_array_extends
  by (fastforce simp: map_deserialize_def split: option.splits prod.splits)

lemma sort_h_extends:
  assumes r: "sort_h s nodes h = (r, h')"
  shows "extends h h' \<and> (\<forall>a. r = Inr a \<longrightarrow> next_addr h \<le> a \<and> arrays h' a \<noteq> None)"
proof (cases "arrays h nodes")
  case None
  with r show ?thesis by (auto simp: sort_h_def)
next
  case (Some rs)
  obtain ws h1 where m: "map_serialize s rs h = (ws, h1)" by (cases "map_serialize s rs h")
  obtain nodes1 h2 where n: "new_array ws h1 = (nodes1, h2)" by (cases "new_array ws h1")
  obtain r3 h3 where d: "sortByDepends_h nodes1 h2 = (r3, h3)" by (cases "sortByDepends_h nodes1 h2")
  from map_serialize_extends[OF m] have e1: "extends h h1" and fw: "\<forall>w\<in>set ws. next_addr h \<le> w"
    by auto
  from new_array_extends[OF n] have e12: "extends h1 h2" and a1: "arrays h2 nodes1 = Some ws" by auto
  have e2: "extends h h2" using extends_trans[OF e1 e12] .
  have l2: "next_addr h \<le> next_addr h2" using e2 by (simp add: extends_def)
  from sortByDepends_h_extends[OF d e2] a1 fw have
    e3: "extends h h3" and f3: "\<forall>a2. r3 = Inr a2 \<longrightarrow> next_addr h2 \<le> a2" by auto
  show ?thesis
  proof (cases r3)
    case (Inl x)
    with r Some m n d e3 show ?thesis by (auto simp: sort_h_def)
  next
    case (Inr nodes2)
    obtain r4 h4 where w: "sortByWeight_h nodes2 h3 = (r4, h4)" by (cases "sortByWeight_h nodes2 h3")
    have "next_addr h \<le> nodes2" using f3 Inr l2 by simp
    from sortByWeight_h_extends[OF w e3 this] have e4: "extends h h4" by simp
    show ?thesis
    proof (cases r4)
      case (Inl x)
      with r Some m n d \<open>r3 = Inr nodes2\<close> w e4 show ?thesis by (auto simp: sort_h_def)
    next
      case (Inr nodes3)
      with r Some m n d \<open>r3 = Inr nodes2\<close> w have md: "map_deserialize nodes3 h4 = (r, h')"
        by (simp add: sort_h_def)
      from map_deserialize_extends[OF md] have
        e5: "extends h4 h'" and f5: "\<forall>a2. r = Inr a2 \<longrightarrow> next_addr h4 \<le> a2 \<and> arrays h' a2 \<noteq> None"
        by auto
      have "next_addr h \<le> next_addr h4" using e4 by (simp add: extends_def)
      then show ?thesis using extends_trans[OF e4 e5] f5 by auto
    qed
  qed
qed

section \<open>Sort on the heap computes sort\<close>

lemma lift_simps [simp]:
  "lift W (Inl e) = Inl e"
  "lift W (Inr (r, a)) = Inr (r, map W a)"
  by (simp_all add: lift_def)

lemma nth_opt_map: "nth_opt (map W a) i = map_option W (nth_opt a i)"
  by (auto simp: nth_opt_def)

lemma for_loop_map:
  assumes "\<And>i a. fn' (nth_opt (map W a) i) i (map W a) = lift W (fn (nth_opt a i) i a)"
  shows "for_loop fn' is (map W arr) d = lift W (for_loop fn is arr d)"
proof (induction "is" arbitrary: arr)
  case Nil
  then show ?case by simp
next
  case (Cons i "is")
  show ?case
  proof (cases "fn (nth_opt arr i) i arr")
    case (Inl e)
    then show ?thesis using assms[where i=i and a=arr] by simp
  next
    case (Inr p)
    obtain r a' where p: "p = (r, a')" by (cases p)
    show ?thesis using assms[where i=i and a=arr] Inr p Cons.IH[of a'] by (cases r) simp_all
  qed
qed

lemma runInRange_map:
  assumes "\<And>i a. fn' (nth_opt (map W a) i) i (map W a) = lift W (fn (nth_opt a i) i a)"
  shows "runInRange (map W arr) from to fn' d = lift W (runInRange arr from to fn d)"
  using for_loop_map[of fn' W fn, OF assms] by (simp add: runInRange_def)

lemma swap_step_map:
  "swap_step step to cmp (nth_opt (map W a) i) i (map W a)
     = lift W (swap_step step to (\<lambda>x y. cmp (W x) (W y)) (nth_opt a i) i a)"
  by (auto simp: swap_step_def Let_def nth_opt_map map_update split: option.splits)

lemma swapInRange_map:
  "swapInRange (map W arr) from to cmp
     = lift W (swapInRange arr from to (\<lambda>x y. cmp (W x) (W y)))"
  using runInRange_map[of "swap_step (if from < to then 1 else -1) to cmp" W
      "swap_step (if from < to then 1 else -1) to (\<lambda>x y. cmp (W x) (W y))", OF swap_step_map]
  by (simp add: swapInRange_def Let_def)

lemma apply_negative_map:
  "apply_negative (nth_opt (map W a) i) i (map W a) = lift W (apply_negative_h W (nth_opt a i) i a)"
proof (cases "nth_opt a i")
  case None
  then show ?thesis by (simp add: apply_negative_def apply_negative_h_def nth_opt_map)
next
  case (Some x)
  show ?thesis
  proof (cases "num_lt (weight (W x)) (Fin 0)")
    case False
    with Some show ?thesis by (simp add: apply_negative_def apply_negative_h_def nth_opt_map)
  next
    case True
    show ?thesis
    proof (cases "swapInRange a i 0 (\<lambda>a b. indexOf (depends (W a)) (id' (W b)) = -1)")
      case (Inl e)
      with Some True show ?thesis
        by (simp add: apply_negative_def apply_negative_h_def nth_opt_map swapInRange_map)
    next
      case (Inr p)
      obtain r a1 where p: "p = (r, a1)" by (cases p)
      show ?thesis
      proof (cases r)
        case None
        with Some True Inr p show ?thesis
          by (simp add: apply_negative_def apply_negative_h_def nth_opt_map swapInRange_map)
      next
        case (Some nodePos)
        with \<open>nth_opt a i = Some x\<close> True Inr p show ?thesis
          by (simp add: apply_negative_def apply_negative_h_def nth_opt_map swapInRange_map
              split: sum.splits prod.splits)
      qed
    qed
  qed
qed

lemma apply_positive_map:
  "apply_positive (nth_opt (map W a) i) i (map W a) = lift W (apply_positive_h W (nth_opt a i) i a)"
proof (cases "nth_opt a i")
  case None
  then show ?thesis by (simp add: apply_positive_def apply_positive_h_def nth_opt_map)
next
  case (Some x)
  show ?thesis
  proof (cases "num_lt (Fin 0) (weight (W x))")
    case False
    with Some show ?thesis by (simp add: apply_positive_def apply_positive_h_def nth_opt_map)
  next
    case True
    show ?thesis
    proof (cases "swapInRange a i (int (length a) - 1) (\<lambda>a b. indexOf (depends (W b)) (id' (W a)) = -1)")
      case (Inl e)
      with Some True show ?thesis
        by (simp add: apply_positive_def apply_positive_h_def nth_opt_map swapInRange_map)
    next
      case (Inr p)
      obtain r a1 where p: "p = (r, a1)" by (cases p)
      show ?thesis
      proof (cases r)
        case None
        with Some True Inr p show ?thesis
          by (simp add: apply_positive_def apply_positive_h_def nth_opt_map swapInRange_map)
      next
        case (Some nodePos)
        with \<open>nth_opt a i = Some x\<close> True Inr p show ?thesis
          by (simp add: apply_positive_def apply_positive_h_def nth_opt_map swapInRange_map
              split: sum.splits prod.splits)
      qed
    qed
  qed
qed

lemma sortByWeight_h_refines:
  assumes "arrays h a = Some arr"
  shows "case sortByWeight_h a h of
           (Inl e, h') \<Rightarrow> sortByWeight (map (wrapper_at h) arr) = Inl e
         | (Inr a', h') \<Rightarrow> a' = a \<and> wrappers h' = wrappers h \<and>
             (\<exists>arr'. arrays h' a = Some arr' \<and> sortByWeight (map (wrapper_at h) arr) = Inr (map (wrapper_at h) arr'))"
proof -
  let ?W = "wrapper_at h"
  have n: "runInRange (map ?W arr) 1 (int (length arr)) apply_negative None
      = lift ?W (runInRange arr 1 (int (length arr)) (apply_negative_h ?W) None)"
    using runInRange_map[of apply_negative ?W "apply_negative_h ?W", OF apply_negative_map] .
  have p: "runInRange (map ?W r1) (int (length r1) - 2) 0 apply_positive None
      = lift ?W (runInRange r1 (int (length r1) - 2) 0 (apply_positive_h ?W) None)" for r1
    using runInRange_map[of apply_positive ?W "apply_positive_h ?W", OF apply_positive_map] .
  show ?thesis
  proof (cases "runInRange arr 1 (int (length arr)) (apply_negative_h ?W) None")
    case (Inl e)
    then show ?thesis using assms by (simp add: sortByWeight_h_def sortByWeight_def n)
  next
    case (Inr q)
    obtain u r1 where q: "q = (u, r1)" by (cases q)
    show ?thesis
    proof (cases "runInRange r1 (int (length r1) - 2) 0 (apply_positive_h ?W) None")
      case (Inl e)
      then show ?thesis using assms Inr q p[of r1]
        by (simp add: sortByWeight_h_def sortByWeight_def n)
    next
      case (Inr q2)
      obtain u2 r2 where q2: "q2 = (u2, r2)" by (cases q2)
      show ?thesis using assms \<open>runInRange arr 1 (int (length arr)) (apply_negative_h ?W) None = Inr q\<close>
          q Inr q2 p[of r1]
        by (simp add: sortByWeight_h_def sortByWeight_def n)
    qed
  qed
qed

lemma map_serialize_spec:
  "map_serialize s rs h = (ws, h') \<Longrightarrow>
   ws = [next_addr h..<next_addr h + length rs] \<and> next_addr h' = next_addr h + length rs \<and>
   records h' = records h \<and> arrays h' = arrays h \<and>
   map (wrapper_at h') ws = map (\<lambda>r. serialize s (record_at h r)) rs"
proof (induction rs arbitrary: h ws)
  case Nil
  then show ?case by simp
next
  case (Cons r rs)
  let ?h1 = "h\<lparr>wrappers := (wrappers h)(next_addr h \<mapsto> serialize s (record_at h r)),
        next_addr := Suc (next_addr h)\<rparr>"
  from Cons.prems obtain ws' where
    m: "map_serialize s rs ?h1 = (ws', h')" and e: "ws = next_addr h # ws'"
    by (auto simp: serialize_h_def split: prod.splits)
  from Cons.IH[OF m] have
    1: "ws' = [Suc (next_addr h)..<Suc (next_addr h) + length rs]"
    and 2: "next_addr h' = Suc (next_addr h) + length rs"
    and 3: "records h' = records h" and 4: "arrays h' = arrays h"
    and 5: "map (wrapper_at h') ws' = map (\<lambda>r. serialize s (record_at ?h1 r)) rs"
    by (simp, simp, simp, simp, blast)
  have "extends ?h1 h'" using map_serialize_extends[OF m] by simp
  then have "wrappers h' (next_addr h) = wrappers ?h1 (next_addr h)"
    by (simp add: extends_def)
  then have 6: "wrapper_at h' (next_addr h) = serialize s (record_at h r)"
    by (simp add: wrapper_at_def)
  have 7: "record_at ?h1 = record_at h" by (simp add: record_at_def fun_eq_iff)
  have 8: "ws = [next_addr h..<next_addr h + length (r # rs)]"
    unfolding e 1 by (simp add: upt_conv_Cons del: upt_Suc)
  have 9: "map (wrapper_at h') ws = map (\<lambda>r. serialize s (record_at h r)) (r # rs)"
    unfolding e using 5 6 7 by simp
  have 10: "next_addr h' = next_addr h + length (r # rs)" using 2 by simp
  show ?case using 8 9 10 3 4 by blast
qed

lemma map_upds_nth:
  "distinct ws \<Longrightarrow> length ws = length vs \<Longrightarrow> i < length ws \<Longrightarrow>
   (m(ws [\<mapsto>] vs)) (ws ! i) = Some (vs ! i)"
proof (induction ws arbitrary: vs i m)
  case Nil
  then show ?case by simp
next
  case (Cons w ws)
  then obtain v vs' where vs: "vs = v # vs'" by (cases vs) auto
  show ?case
  proof (cases i)
    case 0
    then show ?thesis using Cons.prems vs by simp
  next
    case (Suc k)
    then have "ws ! k \<noteq> w" using Cons.prems by auto
    then show ?thesis using Suc Cons.prems vs Cons.IH[of vs' k m] by simp
  qed
qed

lemma forEach_unmarked_result_bound:
  assumes f: "fresh ns" and r: "forEach_unmarked [0..<length ns] \<lparr>objs = ns, result = []\<rparr> = Inr st"
  shows "length (objs st) = length ns \<and> set (result st) \<subseteq> {..<length ns}"
proof -
  let ?st0 = "\<lparr>objs = ns, result = []\<rparr>"
  have T0: "marked TEMPORARY_MARK ?st0 = {}" and P0: "marked PERMANENT_MARK ?st0 = {}"
    using f by (auto simp: marked_init fresh_def)
  have inv0: "dfs_inv ?st0" using P0 by (simp add: dfs_inv_def)
  have sub: "set [0..<length ns] \<subseteq> {..<length (objs ?st0)}" by auto
  have post: "visit_post ?st0 st" using forEach_unmarked_marks[OF r sub T0] by simp
  have inv: "dfs_inv st" using forEach_unmarked_inv[OF r inv0] .
  have l: "length (objs st) = length ns"
    using post by (metis graph_of_length visit_post_def dstate.select_convs(1))
  have "set (result st) = marked PERMANENT_MARK st" using inv by (simp add: dfs_inv_def)
  then show ?thesis using l by (auto simp: marked_def)
qed

lemma sortByDepends_h_refines:
  assumes a: "arrays h a = Some ws" and d: "distinct ws" and f: "fresh (map (wrapper_at h) ws)"
  shows "case sortByDepends_h a h of
           (Inl e, h') \<Rightarrow> sortByDepends (map (wrapper_at h) ws) = Inl e
         | (Inr a', h') \<Rightarrow> \<exists>objs' arr. sortByDepends (map (wrapper_at h) ws) = Inr (objs', map (wrapper_at h') arr)
               \<and> arrays h' a' = Some arr"
proof -
  let ?h1 = "h\<lparr>arrays := (arrays h)(next_addr h \<mapsto> []), next_addr := Suc (next_addr h)\<rparr>"
  have n: "new_array [] h = (next_addr h, ?h1)" by (simp add: new_array_def)
  have W: "wrapper_at ?h1 = wrapper_at h" by (simp add: wrapper_at_def fun_eq_iff)
  let ?ns = "map (wrapper_at h) ws"
  show ?thesis
  proof (cases "forEach_unmarked [0..<length ws] \<lparr>objs = ?ns, result = []\<rparr>")
    case (Inl e)
    then show ?thesis using a n W by (simp add: sortByDepends_h_def sortByDepends_def)
  next
    case (Inr st)
    let ?h' = "?h1\<lparr>wrappers := (wrappers ?h1)(ws [\<mapsto>] objs st),
                  arrays := (arrays ?h1)(next_addr h \<mapsto> map (\<lambda>i. ws ! i) (result st))\<rparr>"
    have r: "sortByDepends_h a h = (Inr (next_addr h), ?h')"
      using a n W Inr by (simp add: sortByDepends_h_def)
    have b: "length (objs st) = length ws" "set (result st) \<subseteq> {..<length ws}"
      using forEach_unmarked_result_bound[OF f] Inr by simp_all
    have "wrapper_at ?h' (ws ! i) = objs st ! i" if "i \<in> set (result st)" for i
      using map_upds_nth[OF d, of "objs st" i] b that by (auto simp: wrapper_at_def)
    then have "map (wrapper_at ?h') (map (\<lambda>i. ws ! i) (result st)) = map (\<lambda>i. objs st ! i) (result st)"
      by simp
    then have "sortByDepends ?ns = Inr (objs st, map (wrapper_at ?h') (map (\<lambda>i. ws ! i) (result st)))"
      using Inr by (simp add: sortByDepends_def)
    then show ?thesis using r by simp
  qed
qed

lemma allocated_ex_heap: "allocated ex_heap"
  by (simp add: allocated_def ex_heap_def)

lemma sort_h_ex_heap:
  "fst (sort_h defaultSorter 2 ex_heap) = Inr 7"
  "arrays (snd (sort_h defaultSorter 2 ex_heap)) 7 = Some [0, 1]"
  by code_simp+

section \<open>The claims\<close>

text \<open>
  C1. For every acyclic input sequence of records and every pair of records N = \<open>recs ! i\<close>,
  M = \<open>recs ! j\<close> of it where M's depends contains N's id, \<^verbatim>\<open>sort\<close> returns a sequence \<open>out\<close>, a
  permutation of the input, in which every record stands at a smaller index than every
  record that depends on it; so N's index is strictly less than M's. The weight pass has
  moved no node across a dependency in either direction.
\<close>

theorem sort_topological:
  assumes "acyclic_input s recs" and "i < length recs" and "j < length recs"
    and "depends_on (serialize s (recs ! j)) (serialize s (recs ! i))"
  shows "\<exists>out. sort_js s recs = Inr out \<and> mset out = mset recs \<and>
    (\<forall>p q. p < length out \<longrightarrow> q < length out \<longrightarrow>
        depends_on (serialize s (out ! q)) (serialize s (out ! p)) \<longrightarrow> p < q)"
proof -
  have "i \<noteq> j"
  proof
    assume "i = j"
    then have "(i, i) \<in> set (dep_edges (map (serialize s) recs))"
      using assms(2,4) by (simp add: set_dep_edges)
    then show False using assms(1) by (auto simp: acyclic_input_def acyclic_def)
  qed
  then have "2 \<le> length recs" using assms(2,3) by simp
  from sort_js_acyclic[OF assms(1) this] obtain out where
    o: "sort_js s recs = Inr out" "mset out = mset recs" "topological (map (serialize s) out)"
    by auto
  have "\<forall>p q. p < length out \<longrightarrow> q < length out \<longrightarrow>
        depends_on (serialize s (out ! q)) (serialize s (out ! p)) \<longrightarrow> p < q"
    using o(3) by (simp add: topological_def)
  then show ?thesis using o(1,2) by blast
qed

text \<open>
  The theorem at the input \<^verbatim>\<open>[{id: 'b', depends: 'a'}, {id: 'a'}]\<close>.
\<close>

theorem sort_topological_witness:
  "acyclic_input defaultSorter [rec_b, rec_a] \<and>
   depends_on (serialize defaultSorter ([rec_b, rec_a] ! 0)) (serialize defaultSorter ([rec_b, rec_a] ! 1)) \<and>
   sort_js defaultSorter [rec_b, rec_a] = Inr [rec_a, rec_b]"
proof -
  have a: "acyclic_input defaultSorter [rec_b, rec_a]" by (rule acyclic_ab)
  have d: "depends_on (serialize defaultSorter ([rec_b, rec_a] ! 0)) (serialize defaultSorter ([rec_b, rec_a] ! 1))"
    by code_simp
  have e: "sort_js defaultSorter [rec_b, rec_a] = Inr [rec_a, rec_b]" by code_simp
  from sort_topological[OF a _ _ d] have "\<exists>out. sort_js defaultSorter [rec_b, rec_a] = Inr out" by auto
  with a d e show ?thesis by simp
qed

text \<open>
  C2. The claim is that \<^verbatim>\<open>sort\<close> raises exactly on a cycle, and returns for every input
  without one. On the empty input and on the one-record input
  \<^verbatim>\<open>[{id: 'x', depends: 'nonexistent'}]\<close>, which have no cycle, the code ends in a
  \<^verbatim>\<open>TypeError\<close>: the negative pass of \<^verbatim>\<open>sortByWeight\<close> reads \<^verbatim>\<open>arr[1]\<close> of the empty array,
  and its positive pass reads \<^verbatim>\<open>arr[-1]\<close> of an array of length one.
\<close>

theorem sort_short_TypeError:
  "sort_js defaultSorter [] = Inl TypeError \<and> sort_js defaultSorter [rec_x] = Inl TypeError"
  by code_simp

text \<open>
  C3. Sorting Jim, Donna, Billie, Chris, Jerk, Sherry, Dillon, Tom, in that order, returns
  exactly Donna, Sherry, Tom, Billie, Jim, Dillon, Chris, Jerk.
\<close>

theorem sort_people:
  "sort_js peopleSorter [Jim, Donna, Billie, Chris, Jerk, Sherry, Dillon, Tom]
   = Inr [Donna, Sherry, Tom, Billie, Jim, Dillon, Chris, Jerk]"
  by code_simp

text \<open>
  C4. The claim is that records without dependency relationships come back in order of
  non-decreasing weight. On \<^verbatim>\<open>[{id: 'light'}, {id: 'heavy', weight: 5}]\<close> the code returns
  heavy (weight 5) before light (weight 0): the positive pass scans down to index 1 only,
  so the node at index 0 never moves toward the back.
\<close>

theorem sort_weights_not_monotone:
  "independent (map (serialize defaultSorter) [rec_light, rec_heavy]) \<and>
   sort_js defaultSorter [rec_light, rec_heavy] = Inr [rec_heavy, rec_light] \<and>
   weight (serialize defaultSorter rec_heavy) = Fin 5 \<and>
   weight (serialize defaultSorter rec_light) = Fin 0"
  by code_simp

text \<open>
  C5, as amended. For freshly serialized nodes none of which depends on any of them,
  \<^verbatim>\<open>sortByDepends\<close> returns the nodes in the reverse of their input order (each with the
  permanent mark): every node is prepended to \<^verbatim>\<open>result\<close> as its visit ends.
\<close>

theorem sortByDepends_independent:
  assumes f: "fresh ns" and ind: "independent ns"
  shows "sortByDepends ns = Inr (map (\<lambda>x. x\<lparr>mark := PERMANENT_MARK\<rparr>) ns,
                                rev (map (\<lambda>x. x\<lparr>mark := PERMANENT_MARK\<rparr>) ns))"
proof -
  let ?st0 = "\<lparr>objs = ns, result = []\<rparr>"
  have d: "set (dep_edges (graph_of ?st0)) = {}"
    using ind by (simp add: dep_edges_graph_of independent_def)
  have "\<exists>st'. forEach_unmarked [0..<length ns] ?st0 = Inr st' \<and> result st' = rev [0..<length ns] @ result ?st0"
    using f d by (intro forEach_unmarked_independent) (auto simp: fresh_def)
  then obtain st' where fe: "forEach_unmarked [0..<length ns] ?st0 = Inr st'"
    and rs: "result st' = rev [0..<length ns]" by auto
  have r: "sortByDepends ns = Inr (objs st', map (\<lambda>i. objs st' ! i) (result st'))"
    using fe by (simp add: sortByDepends_def)
  from sortByDepends_Inr[OF f r] have
    o: "objs st' = map (\<lambda>x. x\<lparr>mark := PERMANENT_MARK\<rparr>) ns" by simp
  have l: "length (objs st') = length ns" using o by simp
  have "map (\<lambda>i. objs st' ! i) (result st') = rev (map (\<lambda>i. objs st' ! i) [0..<length (objs st')])"
    unfolding rs l by (simp add: rev_map)
  also have "\<dots> = rev (objs st')" by (simp only: map_nth)
  finally show ?thesis using r o by simp
qed

text \<open>
  The amended statement at three records without dependencies.
\<close>

theorem sortByDepends_independent_witness:
  "fresh (map (serialize defaultSorter) [rec_a, rec_light, rec_heavy]) \<and>
   independent (map (serialize defaultSorter) [rec_a, rec_light, rec_heavy]) \<and>
   (case sortByDepends (map (serialize defaultSorter) [rec_a, rec_light, rec_heavy]) of
      Inl e \<Rightarrow> [] | Inr (objs', res) \<Rightarrow> map deserialize res) = [rec_heavy, rec_light, rec_a]"
proof -
  have f: "fresh (map (serialize defaultSorter) [rec_a, rec_light, rec_heavy])"
    by (rule fresh_serialize)
  have i: "independent (map (serialize defaultSorter) [rec_a, rec_light, rec_heavy])"
    by code_simp
  have n: "map (node \<circ> (\<lambda>x. x\<lparr>mark := PERMANENT_MARK\<rparr>) \<circ> serialize defaultSorter) rs = rs" for rs
    by (induction rs) (simp_all add: serialize_def Let_def)
  show ?thesis using sortByDepends_independent[OF f i] f i
    by (simp add: deserialize_def[abs_def] rev_map n[simplified comp_def] serialize_def Let_def)
qed

text \<open>
  C5 as stated fails: two nodes with no dependency relationship, given in the order
  \<open>a\<close>, \<open>light\<close>, come back in the order \<open>light\<close>, \<open>a\<close>.
\<close>

theorem sortByDepends_reverses:
  "\<not> depends_on (serialize defaultSorter rec_a) (serialize defaultSorter rec_light) \<and>
   \<not> depends_on (serialize defaultSorter rec_light) (serialize defaultSorter rec_a) \<and>
   sortByDepends [serialize defaultSorter rec_a, serialize defaultSorter rec_light]
     = Inr ([(serialize defaultSorter rec_a)\<lparr>mark := PERMANENT_MARK\<rparr>,
             (serialize defaultSorter rec_light)\<lparr>mark := PERMANENT_MARK\<rparr>],
            [(serialize defaultSorter rec_light)\<lparr>mark := PERMANENT_MARK\<rparr>,
             (serialize defaultSorter rec_a)\<lparr>mark := PERMANENT_MARK\<rparr>])"
  by code_simp

text \<open>
  C6. A call of \<^verbatim>\<open>sort\<close> leaves the caller's input array as it was (same elements in the same
  order), as every other array that existed before the call, and writes no record: the
  nodes are new objects and the marks are written on them. When the call returns, it
  returns an array that did not exist before the call.
\<close>

theorem sort_h_frame:
  assumes "allocated h" and "sort_h s nodes h = (r, h')"
  shows "arrays h' nodes = arrays h nodes \<and> records h' = records h \<and>
    (\<forall>b. arrays h b \<noteq> None \<longrightarrow> arrays h' b = arrays h b) \<and>
    (\<forall>a. r = Inr a \<longrightarrow> arrays h a = None \<and> arrays h' a \<noteq> None)"
proof -
  from sort_h_extends[OF assms(2)] have
    e: "extends h h'" and f: "\<forall>a. r = Inr a \<longrightarrow> next_addr h \<le> a \<and> arrays h' a \<noteq> None" by auto
  have old: "arrays h' b = arrays h b" if "arrays h b \<noteq> None" for b
  proof -
    have "b < next_addr h" using that assms(1) by (auto simp: allocated_def not_le[symmetric])
    then show ?thesis using e by (simp add: extends_def)
  qed
  have "arrays h' nodes = arrays h nodes"
  proof (cases "arrays h nodes")
    case None
    with assms(2) show ?thesis by (simp add: sort_h_def)
  next
    case (Some a)
    then show ?thesis using old by simp
  qed
  moreover have "records h' = records h" using e by (simp add: extends_def)
  moreover have "\<forall>a. r = Inr a \<longrightarrow> arrays h a = None \<and> arrays h' a \<noteq> None"
    using f assms(1) by (auto simp: allocated_def)
  ultimately show ?thesis using old by simp
qed

text \<open>
  The theorem at a heap with the records of \<^verbatim>\<open>[{id: 'b', depends: 'a'}, {id: 'a'}]\<close> at the
  addresses 1 and 0 and the input array at address 2.
\<close>

theorem sort_h_frame_witness:
  "allocated ex_heap \<and> fst (sort_h defaultSorter 2 ex_heap) = Inr 7 \<and>
   arrays ex_heap 2 = Some [1, 0] \<and> arrays ex_heap 7 = None \<and>
   arrays (snd (sort_h defaultSorter 2 ex_heap)) 2 = Some [1, 0] \<and>
   arrays (snd (sort_h defaultSorter 2 ex_heap)) 7 = Some [0, 1] \<and>
   records (snd (sort_h defaultSorter 2 ex_heap)) = records ex_heap"
proof -
  have e: "sort_h defaultSorter 2 ex_heap = (Inr 7, snd (sort_h defaultSorter 2 ex_heap))"
    using sort_h_ex_heap(1) by (metis prod.collapse)
  have i: "arrays ex_heap 2 = Some [1, 0]" by (simp add: ex_heap_def)
  show ?thesis
    using sort_h_frame[OF allocated_ex_heap e] allocated_ex_heap sort_h_ex_heap i by simp
qed

text \<open>
  C7, as amended. For every acyclic input of at least two records, applying \<^verbatim>\<open>sort\<close> to
  the sequence that \<^verbatim>\<open>sort\<close> returned succeeds and returns a permutation of it that is
  again in dependency order. (\<^verbatim>\<open>sort\<close> is a function of its input, so two runs on equal
  inputs agree; the second result need not equal the first.)
\<close>

theorem sort_js_resort:
  assumes a: "acyclic_input s recs" and n: "2 \<le> length recs"
  shows "\<exists>out out'. sort_js s recs = Inr out \<and> sort_js s out = Inr out' \<and> mset out' = mset out \<and>
    (\<forall>p q. p < length out' \<longrightarrow> q < length out' \<longrightarrow>
        depends_on (serialize s (out' ! q)) (serialize s (out' ! p)) \<longrightarrow> p < q)"
proof -
  from sort_js_acyclic[OF a n] obtain out where
    o: "sort_js s recs = Inr out" "mset out = mset recs" "topological (map (serialize s) out)"
    by auto
  have a': "acyclic_input s out"
    using topological_acyclic[OF o(3)] by (simp add: acyclic_input_def)
  have "length out = length recs" using o(2) by (metis size_mset)
  then have n': "2 \<le> length out" using n by simp
  from sort_js_acyclic[OF a' n'] obtain out' where
    o': "sort_js s out = Inr out'" "mset out' = mset out" "topological (map (serialize s) out')"
    by auto
  have "\<forall>p q. p < length out' \<longrightarrow> q < length out' \<longrightarrow>
        depends_on (serialize s (out' ! q)) (serialize s (out' ! p)) \<longrightarrow> p < q"
    using o'(3) by (simp add: topological_def)
  then show ?thesis using o(1) o'(1,2) by blast
qed

text \<open>
  The amended statement at \<^verbatim>\<open>[{id: 'b', depends: 'a'}, {id: 'a'}]\<close>.
\<close>

theorem sort_js_resort_witness:
  "acyclic_input defaultSorter [rec_b, rec_a] \<and> 2 \<le> length [rec_b, rec_a] \<and>
   sort_js defaultSorter [rec_b, rec_a] = Inr [rec_a, rec_b] \<and>
   sort_js defaultSorter [rec_a, rec_b] = Inr [rec_a, rec_b]"
proof -
  have a: "acyclic_input defaultSorter [rec_b, rec_a]" by (rule acyclic_ab)
  have l: "2 \<le> length [rec_b, rec_a]" by simp
  have e: "sort_js defaultSorter [rec_b, rec_a] = Inr [rec_a, rec_b]"
    "sort_js defaultSorter [rec_a, rec_b] = Inr [rec_a, rec_b]" by code_simp+
  from sort_js_resort[OF a l] have "\<exists>out. sort_js defaultSorter [rec_b, rec_a] = Inr out" by auto
  with a l e show ?thesis by simp
qed

text \<open>
  C7 as stated fails: sorting \<^verbatim>\<open>[{id: 'a'}, {id: 'light'}]\<close> returns light, a, and sorting
  that sequence returns a, light.
\<close>

theorem sort_not_idempotent:
  "sort_js defaultSorter [rec_a, rec_light] = Inr [rec_light, rec_a] \<and>
   sort_js defaultSorter [rec_light, rec_a] = Inr [rec_a, rec_light] \<and>
   [rec_a, rec_light] \<noteq> [rec_light, rec_a]"
  by code_simp

text \<open>
  C8. For every record and every serializer, \<^verbatim>\<open>serialize\<close> yields a node (it has no
  failing branch) whose id is the record's id property when that is neither
  \<^verbatim>\<open>undefined\<close> nor \<^verbatim>\<open>null\<close> and the record itself otherwise; whose weight is the weight
  property when it is a number and the default weight otherwise; whose depends is the
  depends property when it is an array, the one-element list of it when it is a truthy
  non-array, and empty when it is falsy; with no mark, and holding the record.
\<close>

theorem serialize_normalizes:
  "(getprop r (idProperty s) \<noteq> VUndefined \<and> getprop r (idProperty s) \<noteq> VNull
      \<longrightarrow> id' (serialize s r) = getprop r (idProperty s)) \<and>
   (getprop r (idProperty s) = VUndefined \<or> getprop r (idProperty s) = VNull
      \<longrightarrow> id' (serialize s r) = VObj (ref r)) \<and>
   (\<forall>w. getprop r (weightProperty s) = VNum w \<longrightarrow> weight (serialize s r) = w) \<and>
   ((\<forall>w. getprop r (weightProperty s) \<noteq> VNum w) \<longrightarrow> weight (serialize s r) = defaultWeight s) \<and>
   (\<forall>a xs. getprop r (dependsProperty s) = VArr a xs \<longrightarrow> depends (serialize s r) = xs) \<and>
   (truthy (getprop r (dependsProperty s)) \<and> (\<forall>a xs. getprop r (dependsProperty s) \<noteq> VArr a xs)
      \<longrightarrow> depends (serialize s r) = [getprop r (dependsProperty s)]) \<and>
   (\<not> truthy (getprop r (dependsProperty s)) \<longrightarrow> depends (serialize s r) = []) \<and>
   mark (serialize s r) = Unmarked \<and> node (serialize s r) = r"
proof -
  have w: "weight (serialize s r) = defaultWeight s" if "\<forall>w. getprop r (weightProperty s) \<noteq> VNum w"
    using that by (cases "getprop r (weightProperty s)") (simp_all add: serialize_def Let_def)
  have d: "depends (serialize s r) = [getprop r (dependsProperty s)]"
    if "truthy (getprop r (dependsProperty s))" "\<forall>a xs. getprop r (dependsProperty s) \<noteq> VArr a xs"
    using that by (cases "getprop r (dependsProperty s)") (simp_all add: serialize_def Let_def)
  show ?thesis using w d by (auto simp: serialize_def Let_def)
qed

text \<open>
  The theorem at three records: ids present and absent, weights numeric, absent and
  non-numeric, depends scalar, absent and an array.
\<close>

theorem serialize_normalizes_witness:
  "id' (serialize defaultSorter rec_x) = VStr ''x'' \<and>
   weight (serialize defaultSorter rec_x) = Fin 0 \<and>
   depends (serialize defaultSorter rec_x) = [VStr ''nonexistent''] \<and>
   node (serialize defaultSorter rec_x) = rec_x \<and>
   weight (serialize defaultSorter rec_heavy) = Fin 5 \<and>
   depends (serialize defaultSorter rec_heavy) = [] \<and>
   id' (serialize defaultSorter rec_anon) = VObj 4 \<and>
   depends (serialize defaultSorter rec_anon) = [VStr ''a'', VStr ''x'']"
proof -
  have g: "getprop rec_x (idProperty defaultSorter) = VStr ''x''"
    "getprop rec_x (weightProperty defaultSorter) = VUndefined"
    "getprop rec_x (dependsProperty defaultSorter) = VStr ''nonexistent''"
    "getprop rec_heavy (weightProperty defaultSorter) = VNum (Fin 5)"
    "getprop rec_heavy (dependsProperty defaultSorter) = VUndefined"
    "getprop rec_anon (idProperty defaultSorter) = VUndefined"
    "getprop rec_anon (dependsProperty defaultSorter) = VArr 5 [VStr ''a'', VStr ''x'']"
    "defaultWeight defaultSorter = Fin 0" "ref rec_anon = 4"
    by (simp_all add: getprop_def defaultSorter_def Serializer_def rec_x_def rec_heavy_def rec_anon_def)
  show ?thesis
    using serialize_normalizes[of rec_x defaultSorter]
      serialize_normalizes[of rec_heavy defaultSorter]
      serialize_normalizes[of rec_anon defaultSorter]
    by (simp add: g)
qed




text \<open>
  C10. After a call of \<^verbatim>\<open>sortByDepends\<close> on freshly serialized nodes that returns, every
  node object of the input carries the permanent mark and the returned array holds as many
  nodes as the input; a second call on the same node objects returns the empty array.
\<close>

theorem sortByDepends_twice:
  assumes f: "fresh ns" and r: "sortByDepends ns = Inr (objs', res)"
  shows "(\<forall>x\<in>set objs'. mark x = PERMANENT_MARK) \<and> length res = length ns \<and>
    sortByDepends objs' = Inr (objs', [])"
proof -
  from sortByDepends_Inr[OF f r] have
    o: "objs' = map (\<lambda>x. x\<lparr>mark := PERMANENT_MARK\<rparr>) ns" and m: "mset res = mset objs'"
    by auto
  have 1: "\<forall>x\<in>set objs'. mark x = PERMANENT_MARK" unfolding o by auto
  have "length res = length objs'" using m by (metis size_mset)
  then have 2: "length res = length ns" using o by simp
  have "\<forall>i\<in>set [0..<length objs']. mark (objs \<lparr>objs = objs', result = []\<rparr> ! i) \<noteq> Unmarked"
    using 1 by auto
  then have "forEach_unmarked [0..<length objs'] \<lparr>objs = objs', result = []\<rparr>
      = Inr \<lparr>objs = objs', result = []\<rparr>"
    by (rule forEach_unmarked_skip)
  then have 3: "sortByDepends objs' = Inr (objs', [])" by (simp add: sortByDepends_def)
  show ?thesis using 1 2 3 by simp
qed

text \<open>
  The theorem at the nodes of \<^verbatim>\<open>[{id: 'b', depends: 'a'}, {id: 'a'}]\<close>.
\<close>

theorem sortByDepends_twice_witness:
  "fresh (map (serialize defaultSorter) [rec_b, rec_a]) \<and>
   sortByDepends (map (serialize defaultSorter) [rec_b, rec_a])
     = Inr (map (\<lambda>x. x\<lparr>mark := PERMANENT_MARK\<rparr>) (map (serialize defaultSorter) [rec_b, rec_a]),
            map (\<lambda>x. x\<lparr>mark := PERMANENT_MARK\<rparr>) (map (serialize defaultSorter) [rec_a, rec_b])) \<and>
   sortByDepends (map (\<lambda>x. x\<lparr>mark := PERMANENT_MARK\<rparr>) (map (serialize defaultSorter) [rec_b, rec_a]))
     = Inr (map (\<lambda>x. x\<lparr>mark := PERMANENT_MARK\<rparr>) (map (serialize defaultSorter) [rec_b, rec_a]), [])"
proof -
  have f: "fresh (map (serialize defaultSorter) [rec_b, rec_a])" by (rule fresh_serialize)
  have r: "sortByDepends (map (serialize defaultSorter) [rec_b, rec_a])
     = Inr (map (\<lambda>x. x\<lparr>mark := PERMANENT_MARK\<rparr>) (map (serialize defaultSorter) [rec_b, rec_a]),
            map (\<lambda>x. x\<lparr>mark := PERMANENT_MARK\<rparr>) (map (serialize defaultSorter) [rec_a, rec_b]))"
    by code_simp
  show ?thesis using sortByDepends_twice[OF f r] f r by simp
qed

text \<open>
  Beyond the claims: on an input whose depends relation has a cycle, \<^verbatim>\<open>sort\<close> ends in the
  circular-dependency error, carrying the id of one of the input's nodes.
\<close>

theorem sort_js_cyclic:
  "\<not> acyclic_input s recs \<Longrightarrow>
   \<exists>c<length recs. sort_js s recs = Inl (CycleError (id' (serialize s (recs ! c))))"
  by (rule sort_js_cyclic_error)

text \<open>
  At \<^verbatim>\<open>[{id: 'a', depends: 'b'}, {id: 'b', depends: 'a'}]\<close>.
\<close>

theorem sort_js_cyclic_witness:
  "\<not> acyclic_input defaultSorter [rec_c1, rec_c2] \<and>
   sort_js defaultSorter [rec_c1, rec_c2] = Inl (CycleError (VStr ''a''))"
proof -
  have e: "sort_js defaultSorter [rec_c1, rec_c2] = Inl (CycleError (VStr ''a''))" by code_simp
  show ?thesis using sort_js_cyclic[OF cyclic_c1_c2] cyclic_c1_c2 e by simp
qed

text \<open>
  Beyond the claims: on every input without a cycle that has fewer than two records,
  \<^verbatim>\<open>sort\<close> ends in a \<^verbatim>\<open>TypeError\<close>.
\<close>

theorem sort_js_short:
  "acyclic_input s recs \<Longrightarrow> length recs < 2 \<Longrightarrow> sort_js s recs = Inl TypeError"
  by (rule sort_js_short_error)

text \<open>
  At \<^verbatim>\<open>[{id: 'x', depends: 'nonexistent'}]\<close>.
\<close>

theorem sort_js_short_witness:
  "acyclic_input defaultSorter [rec_x] \<and> length [rec_x] < 2 \<and>
   sort_js defaultSorter [rec_x] = Inl TypeError"
  using sort_js_short[OF acyclic_x] acyclic_x by simp

text \<open>
  Beyond the claims: whenever \<^verbatim>\<open>sort\<close> returns, the input had no cycle and at least two
  records, and the returned sequence is a permutation of the input in dependency order.
\<close>

theorem sort_js_returns:
  assumes "sort_js s recs = Inr out"
  shows "acyclic_input s recs \<and> 2 \<le> length recs \<and> mset out = mset recs \<and>
    (\<forall>p q. p < length out \<longrightarrow> q < length out \<longrightarrow>
        depends_on (serialize s (out ! q)) (serialize s (out ! p)) \<longrightarrow> p < q)"
proof -
  have a: "acyclic_input s recs"
    using sort_js_cyclic_error[of s recs] assms by auto
  have n: "2 \<le> length recs"
    using sort_js_short_error[OF a] assms by (cases "length recs < 2") auto
  from sort_js_acyclic[OF a n] assms have
    "mset out = mset recs" "topological (map (serialize s) out)" by auto
  then show ?thesis using a n by (simp add: topological_def)
qed

text \<open>
  At \<^verbatim>\<open>[{id: 'b', depends: 'a'}, {id: 'a'}]\<close>.
\<close>

theorem sort_js_returns_witness:
  "sort_js defaultSorter [rec_b, rec_a] = Inr [rec_a, rec_b] \<and>
   acyclic_input defaultSorter [rec_b, rec_a] \<and> mset [rec_a, rec_b] = mset [rec_b, rec_a]"
proof -
  have e: "sort_js defaultSorter [rec_b, rec_a] = Inr [rec_a, rec_b]" by code_simp
  show ?thesis using sort_js_returns[OF e] e by simp
qed

text \<open>
  Beyond the claims: \<^verbatim>\<open>sort\<close> on the heap ends as \<^verbatim>\<open>sort\<close> on the sequence of the input array's
  records does, with the same error or with a new array holding the references of the
  records of the sorted sequence.
\<close>

theorem sort_h_refines:
  assumes a: "arrays h nodes = Some rs" and r: "sort_h s nodes h = (r, h')"
  shows "case r of
           Inl e \<Rightarrow> sort_js s (map (record_at h) rs) = Inl e
         | Inr a \<Rightarrow> \<exists>out. sort_js s (map (record_at h) rs) = Inr out \<and> arrays h' a = Some (map ref out)"
proof -
  obtain ws h1 where m: "map_serialize s rs h = (ws, h1)" by (cases "map_serialize s rs h")
  let ?h2 = "h1\<lparr>arrays := (arrays h1)(next_addr h1 \<mapsto> ws), next_addr := Suc (next_addr h1)\<rparr>"
  have n: "new_array ws h1 = (next_addr h1, ?h2)" by (simp add: new_array_def)
  from map_serialize_spec[OF m] have
    ws: "ws = [next_addr h..<next_addr h + length rs]"
    and ns1: "map (wrapper_at h1) ws = map (\<lambda>r. serialize s (record_at h r)) rs" by blast+
  have d: "distinct ws" unfolding ws by simp
  have W2: "wrapper_at ?h2 = wrapper_at h1" by (simp add: wrapper_at_def fun_eq_iff)
  have ns: "map (wrapper_at ?h2) ws = map (serialize s) (map (record_at h) rs)"
    unfolding W2 ns1 by (simp add: comp_def)
  have f: "fresh (map (wrapper_at ?h2) ws)" unfolding ns by (rule fresh_serialize)
  have a2: "arrays ?h2 (next_addr h1) = Some ws" by simp
  obtain r3 h3 where sd: "sortByDepends_h (next_addr h1) ?h2 = (r3, h3)"
    by (cases "sortByDepends_h (next_addr h1) ?h2")
  have step: "sort_h s nodes h =
      (case r3 of Inl e \<Rightarrow> (Inl e, h3)
       | Inr nodes2 \<Rightarrow> (case sortByWeight_h nodes2 h3 of
            (Inl e, h4) \<Rightarrow> (Inl e, h4)
          | (Inr nodes3, h4) \<Rightarrow> map_deserialize nodes3 h4))"
    using a m n sd by (simp add: sort_h_def)
  show ?thesis
  proof (cases r3)
    case (Inl e)
    then have "sortByDepends (map (serialize s) (map (record_at h) rs)) = Inl e"
      using sortByDepends_h_refines[OF a2 d f] sd ns by simp
    then have "sort_js s (map (record_at h) rs) = Inl e" by (simp add: sort_js_def)
    then show ?thesis using step r Inl by auto
  next
    case (Inr nodes2)
    then obtain objs' arr where
      p: "sortByDepends (map (serialize s) (map (record_at h) rs)) = Inr (objs', map (wrapper_at h3) arr)"
      and a3: "arrays h3 nodes2 = Some arr"
      using sortByDepends_h_refines[OF a2 d f] sd ns by auto
    obtain r4 h4 where sw: "sortByWeight_h nodes2 h3 = (r4, h4)"
      by (cases "sortByWeight_h nodes2 h3")
    show ?thesis
    proof (cases r4)
      case (Inl e)
      then have "sortByWeight (map (wrapper_at h3) arr) = Inl e"
        using sortByWeight_h_refines[OF a3] sw by simp
      then have "sort_js s (map (record_at h) rs) = Inl e" using p by (simp add: sort_js_def)
      then show ?thesis using step r \<open>r3 = Inr nodes2\<close> sw Inl by auto
    next
      case (Inr nodes3)
      then obtain arr' where e3: "nodes3 = nodes2" and w4: "wrappers h4 = wrappers h3"
        and a4: "arrays h4 nodes2 = Some arr'"
        and q: "sortByWeight (map (wrapper_at h3) arr) = Inr (map (wrapper_at h3) arr')"
        using sortByWeight_h_refines[OF a3] sw by auto
      have W4: "wrapper_at h4 = wrapper_at h3" using w4 by (simp add: wrapper_at_def fun_eq_iff)
      let ?out = "map deserialize (map (wrapper_at h3) arr')"
      have o: "sort_js s (map (record_at h) rs) = Inr ?out" using p q by (simp add: sort_js_def)
      have "map_deserialize nodes3 h4 = (r, h')"
        using step r \<open>r3 = Inr nodes2\<close> sw Inr by simp
      then have "r = Inr (next_addr h4)" "arrays h' (next_addr h4) = Some (map ref ?out)"
        using a4 e3 W4 by (auto simp: map_deserialize_def new_array_def)
      then show ?thesis using o by simp
    qed
  qed
qed

text \<open>
  At the same heap.
\<close>

theorem sort_h_refines_witness:
  "arrays ex_heap 2 = Some [1, 0] \<and> map (record_at ex_heap) [1, 0] = [rec_b, rec_a] \<and>
   fst (sort_h defaultSorter 2 ex_heap) = Inr 7 \<and>
   sort_js defaultSorter [rec_b, rec_a] = Inr [rec_a, rec_b] \<and>
   arrays (snd (sort_h defaultSorter 2 ex_heap)) 7 = Some (map ref [rec_a, rec_b])"
proof -
  have e: "sort_h defaultSorter 2 ex_heap = (Inr 7, snd (sort_h defaultSorter 2 ex_heap))"
    using sort_h_ex_heap(1) by (metis prod.collapse)
  have i: "arrays ex_heap 2 = Some [1, 0]" by (simp add: ex_heap_def)
  have m: "map (record_at ex_heap) [1, 0] = [rec_b, rec_a]"
    by (simp add: record_at_def ex_heap_def rec_a_def rec_b_def)
  have s: "sort_js defaultSorter [rec_b, rec_a] = Inr [rec_a, rec_b]" by code_simp
  show ?thesis
    using sort_h_refines[OF i e] i m s sort_h_ex_heap by simp
qed

text \<open>
  Beyond the claims: when \<^verbatim>\<open>sortByDepends\<close> returns on freshly serialized nodes, its result
  holds every node once (with the permanent mark), each before all nodes that depend on it.
\<close>

theorem sortByDepends_topological:
  assumes "fresh ns" and "sortByDepends ns = Inr (objs', res)"
  shows "mset res = mset (map (\<lambda>x. x\<lparr>mark := PERMANENT_MARK\<rparr>) ns) \<and>
    (\<forall>p q. p < length res \<longrightarrow> q < length res \<longrightarrow> depends_on (res ! q) (res ! p) \<longrightarrow> p < q)"
  using sortByDepends_Inr[OF assms] by (simp add: topological_def)

text \<open>
  At the nodes of \<^verbatim>\<open>[{id: 'b', depends: 'a'}, {id: 'a'}]\<close>.
\<close>

theorem sortByDepends_topological_witness:
  "fresh (map (serialize defaultSorter) [rec_b, rec_a]) \<and>
   sortByDepends (map (serialize defaultSorter) [rec_b, rec_a])
     = Inr (map (\<lambda>x. x\<lparr>mark := PERMANENT_MARK\<rparr>) (map (serialize defaultSorter) [rec_b, rec_a]),
            map (\<lambda>x. x\<lparr>mark := PERMANENT_MARK\<rparr>) (map (serialize defaultSorter) [rec_a, rec_b]))"
proof -
  have f: "fresh (map (serialize defaultSorter) [rec_b, rec_a])" by (rule fresh_serialize)
  have r: "sortByDepends (map (serialize defaultSorter) [rec_b, rec_a])
     = Inr (map (\<lambda>x. x\<lparr>mark := PERMANENT_MARK\<rparr>) (map (serialize defaultSorter) [rec_b, rec_a]),
            map (\<lambda>x. x\<lparr>mark := PERMANENT_MARK\<rparr>) (map (serialize defaultSorter) [rec_a, rec_b]))"
    by code_simp
  show ?thesis using sortByDepends_topological[OF f r] f r by simp
qed

text \<open>
  Beyond the claims: on an array of at least two nodes in dependency order,
  \<^verbatim>\<open>sortByWeight\<close> returns, and the array is then a permutation of itself that is still in
  dependency order.
\<close>

theorem sortByWeight_keeps_order:
  assumes "2 \<le> length arr" and "topological arr"
  shows "\<exists>arr'. sortByWeight arr = Inr arr' \<and> mset arr' = mset arr \<and> topological arr'"
  using assms by (rule sortByWeight_topological)

text \<open>
  At three nodes without dependencies and with the weights 0, -1, 1.
\<close>

theorem sortByWeight_keeps_order_witness:
  "2 \<le> length [node_z, node_m, node_p] \<and> topological [node_z, node_m, node_p] \<and>
   sortByWeight [node_z, node_m, node_p] = Inr [node_m, node_z, node_p]"
proof -
  have l: "2 \<le> length [node_z, node_m, node_p]" by simp
  have e: "sortByWeight [node_z, node_m, node_p] = Inr [node_m, node_z, node_p]" by code_simp
  show ?thesis using sortByWeight_keeps_order[OF l topological_z_m_p] l topological_z_m_p e by simp
qed

end
